theory Spec2Isabelle
  imports Main "HOL-Library.Multiset"
begin

section \<open>Data model\<close>

text \<open>
  The patient schema (\<^verbatim>\<open>models/Patient\<close>, \<^verbatim>\<open>types/patient.ts\<close>). The two enums are
  datatypes; \<^verbatim>\<open>_id\<close> is the field \<open>ident\<close>, \<^verbatim>\<open>type\<close> is the field \<open>ptype\<close>. Dates
  are milliseconds as integers; the optional dates are options. A queue item extends
  the patient by \<open>position\<close> and \<open>estimatedWaitTime\<close>.
\<close>

datatype ptype = BOOKED | WALK_IN

datatype status = WAITING | IN_PROGRESS | DONE

record patient =
  ident :: nat
  name :: string
  phone :: string
  email :: "string option"
  tokenNumber :: int
  ptype :: ptype
  status :: status
  department :: string
  createdAt :: int
  startedAt :: "int option"
  completedAt :: "int option"

record queueItem = patient +
  position :: nat
  estimatedWaitTime :: nat

text \<open>
  The collection is the list of its documents, in the order in which the store
  enumerates them; every insert appends. The store is taken to answer every query
  (a failing connection is not part of this model).
\<close>

type_synonym store = "patient list"

section \<open>Store queries\<close>

text \<open>
  \<^verbatim>\<open>Patient.find({status: {$in: ['WAITING', 'IN_PROGRESS']}}).sort({createdAt: 1})\<close>:
  the sort key is \<open>createdAt\<close> alone, and the query names no order for documents
  with equal keys: that order is the store's. It is the parameter \<open>ties\<close> of the
  model, the order in which the store takes the matching documents before it sorts
  them on \<open>createdAt\<close>. Every ascending answer arises from some \<open>ties\<close> that only
  rearranges its argument (\<open>rearranges\<close>); with the identity, documents with equal
  keys stay in the order of enumeration.
\<close>

type_synonym tieOrder = "patient list \<Rightarrow> patient list"

definition rearranges :: "tieOrder \<Rightarrow> bool" where
  "rearranges ties = (\<forall>xs. mset (ties xs) = mset xs)"

definition isActive :: "patient \<Rightarrow> bool" where
  "isActive p = (status p = WAITING \<or> status p = IN_PROGRESS)"

definition findActive :: "tieOrder \<Rightarrow> store \<Rightarrow> patient list" where
  "findActive ties db = sort_key createdAt (ties (filter isActive db))"

text \<open>\<^verbatim>\<open>findOneAndUpdate(cond, patch, {new: true})\<close>: the first document that matches is
  patched and returned; \<open>None\<close> is the \<^verbatim>\<open>null\<close> of no match.\<close>

fun findOneAndUpdate ::
  "(patient \<Rightarrow> bool) \<Rightarrow> (patient \<Rightarrow> patient) \<Rightarrow> store \<Rightarrow> store \<times> patient option" where
  "findOneAndUpdate cond patch [] = ([], None)"
| "findOneAndUpdate cond patch (p # ps) =
     (if cond p then (patch p # ps, Some (patch p))
      else (case findOneAndUpdate cond patch ps of (ps', r) \<Rightarrow> (p # ps', r)))"

definition findByIdAndUpdate ::
  "nat \<Rightarrow> (patient \<Rightarrow> patient) \<Rightarrow> store \<Rightarrow> store \<times> patient option" where
  "findByIdAndUpdate i patch db = findOneAndUpdate (\<lambda>p. ident p = i) patch db"

fun findByIdAndDelete :: "nat \<Rightarrow> store \<Rightarrow> store \<times> patient option" where
  "findByIdAndDelete i [] = ([], None)"
| "findByIdAndDelete i (p # ps) =
     (if ident p = i then (ps, Some p)
      else (case findByIdAndDelete i ps of (ps', r) \<Rightarrow> (p # ps', r)))"

text \<open>\<^verbatim>\<open>Patient.findOne().sort({tokenNumber: -1})\<close>: the document with the greatest token.\<close>

definition findLastPatient :: "store \<Rightarrow> patient option" where
  "findLastPatient db =
     (case sort_key (\<lambda>p. - tokenNumber p) db of [] \<Rightarrow> None | p # _ \<Rightarrow> Some p)"

section \<open>Hybrid slotting: \<^verbatim>\<open>getSortedQueue\<close>\<close>

text \<open>The inner \<^verbatim>\<open>for (let i = 0; i < 3 && bookedIndex < bookedPatients.length; i++)\<close>.\<close>

function forBooked ::
  "patient list \<Rightarrow> nat \<Rightarrow> nat \<Rightarrow> patient list \<Rightarrow> nat \<times> patient list" where
  "forBooked bookedPatients i bookedIndex sortedQueue =
     (if i < 3 \<and> bookedIndex < length bookedPatients
      then forBooked bookedPatients (i + 1) (bookedIndex + 1)
             (sortedQueue @ [bookedPatients ! bookedIndex])
      else (bookedIndex, sortedQueue))"
  by pat_completeness auto
termination
  by (relation "measure (\<lambda>(bs, i, bi, q). 3 - i)") auto

declare forBooked.simps [simp del]

text \<open>\<^verbatim>\<open>if (walkInIndex < walkInPatients.length) sortedQueue.push(walkInPatients[walkInIndex++])\<close>.\<close>

definition pushWalkIn :: "patient list \<Rightarrow> nat \<Rightarrow> patient list \<Rightarrow> nat \<times> patient list" where
  "pushWalkIn walkInPatients walkInIndex sortedQueue =
     (if walkInIndex < length walkInPatients
      then (walkInIndex + 1, sortedQueue @ [walkInPatients ! walkInIndex])
      else (walkInIndex, sortedQueue))"

lemma forBooked_index:
  "fst (forBooked bs i bi q) = (if bi < length bs then min (length bs) (bi + (3 - i)) else bi)"
proof (induction bs i bi q rule: forBooked.induct)
  case (1 bs i bi q)
  then show ?case
    by (subst forBooked.simps) auto
qed

text \<open>The outer \<^verbatim>\<open>while\<close> loop over the two indices.\<close>

function slottingLoop ::
  "patient list \<Rightarrow> patient list \<Rightarrow> nat \<Rightarrow> nat \<Rightarrow> patient list \<Rightarrow> patient list" where
  "slottingLoop bookedPatients walkInPatients bookedIndex walkInIndex sortedQueue =
     (if bookedIndex < length bookedPatients \<or> walkInIndex < length walkInPatients
      then (case forBooked bookedPatients 0 bookedIndex sortedQueue of
              (bookedIndex', sortedQueue') \<Rightarrow>
                (case pushWalkIn walkInPatients walkInIndex sortedQueue' of
                   (walkInIndex', sortedQueue'') \<Rightarrow>
                     slottingLoop bookedPatients walkInPatients bookedIndex' walkInIndex'
                       sortedQueue''))
      else sortedQueue)"
  by pat_completeness auto
termination
proof (relation "measure (\<lambda>(bs, ws, bi, wi, q). (length bs - bi) + (length ws - wi))")
  fix bs ws :: "patient list" and bi wi :: nat and q :: "patient list"
    and x bi' q' y wi' q''
  assume run: "bi < length bs \<or> wi < length ws"
    and b: "(bi', q') = forBooked bs 0 bi q"
    and w: "(wi', q'') = pushWalkIn ws wi q'"
  have bi': "bi' = (if bi < length bs then min (length bs) (bi + 3) else bi)"
    using forBooked_index[of bs 0 bi q] b[symmetric] by simp
  have wi': "wi' = (if wi < length ws then wi + 1 else wi)"
    using w by (simp add: pushWalkIn_def split: if_splits)
  show "((bs, ws, bi', wi', q''), (bs, ws, bi, wi, q))
        \<in> measure (\<lambda>(bs, ws, bi, wi, q). (length bs - bi) + (length ws - wi))"
    using run by (auto simp: bi' wi')
qed simp

declare slottingLoop.simps [simp del]

definition getSortedQueue :: "tieOrder \<Rightarrow> store \<Rightarrow> patient list" where
  "getSortedQueue ties db =
     (let patients = findActive ties db;
          bookedPatients = filter (\<lambda>p. ptype p = BOOKED) patients;
          walkInPatients = filter (\<lambda>p. ptype p = WALK_IN) patients
      in slottingLoop bookedPatients walkInPatients 0 0 [])"

text \<open>
  The slotting policy in the words of the specification: take up to three from the
  front of the booked list, then one from the front of the walk-in list, and repeat
  until both are empty.
\<close>

function slotMerge :: "'a list \<Rightarrow> 'a list \<Rightarrow> 'a list" where
  "slotMerge booked walkIn =
     (if booked = [] \<and> walkIn = [] then []
      else take 3 booked @ take 1 walkIn @ slotMerge (drop 3 booked) (drop 1 walkIn))"
  by pat_completeness auto
termination
proof (relation "measure (\<lambda>(bs, ws). length bs + length ws)")
  fix booked walkIn :: "'a list"
  assume "\<not> (booked = [] \<and> walkIn = [])"
  then show "((drop 3 booked, drop 1 walkIn), (booked, walkIn))
             \<in> measure (\<lambda>(bs, ws). length bs + length ws)"
    by (cases booked; cases walkIn) auto
qed simp

declare slotMerge.simps [simp del]

section \<open>Wait times: \<^verbatim>\<open>calculateWaitTimes\<close>\<close>

definition calculateWaitTimes :: "patient list \<Rightarrow> queueItem list" where
  "calculateWaitTimes queue =
     map (\<lambda>(index, patient).
            let position = (if status patient = IN_PROGRESS then 0 else index);
                estimatedWaitTime = position * 15
            in patient.extend patient
                 \<lparr>position = position, estimatedWaitTime = estimatedWaitTime\<rparr>)
         (enumerate 0 queue)"

section \<open>Notification: \<^verbatim>\<open>sendWhatsAppMessage\<close>\<close>

text \<open>
  The Twilio client is an external collaborator: \<open>twilio\<close> is \<open>None\<close> when the account
  is not configured, and otherwise tells, for a phone number, a token and a name,
  whether \<^verbatim>\<open>messages.create\<close> resolved or threw. \<open>shouldSend\<close> is the environment
  switch \<^verbatim>\<open>SEND_WHATSAPP_ON_REGISTER !== 'false'\<close>.
\<close>

datatype twilioResult = Resolved | Threw

record notifier =
  shouldSend :: bool
  twilio :: "(string \<Rightarrow> int \<Rightarrow> string \<Rightarrow> twilioResult) option"

definition sendWhatsAppMessage :: "notifier \<Rightarrow> string \<Rightarrow> int \<Rightarrow> string \<Rightarrow> bool" where
  "sendWhatsAppMessage env phoneNumber token patientName =
     (if \<not> shouldSend env then False
      else (case twilio env of
              None \<Rightarrow> False
            | Some client \<Rightarrow>
                (case client phoneNumber token patientName of
                   Resolved \<Rightarrow> True
                 | Threw \<Rightarrow> False)))"

section \<open>Handlers\<close>

text \<open>
  A handler takes the store and returns the store after it, the queue it broadcast
  with \<^verbatim>\<open>io.emit('QUEUE_UPDATE', ...)\<close> (\<open>None\<close> when it broadcast nothing) and its
  reply to the caller: \<open>Created\<close> is the 201 of a registration, with the stored entry,
  the token of its tracking link and \<^verbatim>\<open>whatsappSent\<close>; \<open>Json\<close> is the 200 of a status
  edit, with the patched document or \<^verbatim>\<open>null\<close>; \<open>Removed\<close> is the 200 of a deletion,
  \<open>NotFound\<close> its 404; \<open>BadRequest\<close> is the 400 of a caught exception.
\<close>

datatype reply =
  Created patient int bool
| ConsultationStarted "queueItem list"
| Json "patient option"
| Removed
| NotFound
| BadRequest

record outcome =
  storeAfter :: store
  published :: "queueItem list option"
  reply :: reply

definition publishQueue :: "tieOrder \<Rightarrow> store \<Rightarrow> queueItem list" where
  "publishQueue ties db = calculateWaitTimes (getSortedQueue ties db)"

subsection \<open>\<^verbatim>\<open>socket.on('START_CONSULTATION')\<close>\<close>

text \<open>\<open>t1\<close> and \<open>t2\<close> are the two \<^verbatim>\<open>new Date()\<close> of the handler.\<close>

definition completeCurrent :: "int \<Rightarrow> store \<Rightarrow> store \<times> patient option" where
  "completeCurrent t1 db =
     findOneAndUpdate (\<lambda>p. status p = IN_PROGRESS)
       (\<lambda>p. p\<lparr>status := DONE, completedAt := Some t1\<rparr>) db"

definition startNext :: "tieOrder \<Rightarrow> int \<Rightarrow> store \<Rightarrow> store" where
  "startNext ties t2 db =
     (case getSortedQueue ties db of
        [] \<Rightarrow> db
      | nextPatient # _ \<Rightarrow>
          fst (findByIdAndUpdate (ident nextPatient)
                 (\<lambda>p. p\<lparr>status := IN_PROGRESS, startedAt := Some t2\<rparr>) db))"

definition startConsultation :: "tieOrder \<Rightarrow> int \<Rightarrow> int \<Rightarrow> store \<Rightarrow> outcome" where
  "startConsultation ties t1 t2 db =
     (let db1 = fst (completeCurrent t1 db);
          db2 = startNext ties t2 db1;
          queueWithWaitTimes = publishQueue ties db2
      in \<lparr>storeAfter = db2, published = Some queueWithWaitTimes,
          reply = ConsultationStarted queueWithWaitTimes\<rparr>)"

text \<open>A sequence of \<^verbatim>\<open>START_CONSULTATION\<close> events, each with its two clock readings.\<close>

fun advanceAll :: "tieOrder \<Rightarrow> (int \<times> int) list \<Rightarrow> store \<Rightarrow> store" where
  "advanceAll ties [] db = db"
| "advanceAll ties ((t1, t2) # ts) db =
     advanceAll ties ts (storeAfter (startConsultation ties t1 t2 db))"

subsection \<open>\<^verbatim>\<open>POST /api/patients\<close>\<close>

text \<open>
  The request body: each field may be absent. The schema requires \<open>name\<close> and \<open>phone\<close>
  (an empty string does not satisfy \<^verbatim>\<open>required\<close>), and \<open>type\<close> is one of the two enum
  strings; \<^verbatim>\<open>patient.save()\<close> throws otherwise, as it does on an \<^verbatim>\<open>_id\<close> the
  collection already holds and on a \<open>tokenNumber\<close> it already holds (the field is
  \<^verbatim>\<open>unique\<close>). \<open>oid\<close> is the identifier the driver generated and \<open>now\<close> the clock
  reading of \<^verbatim>\<open>Date.now\<close>.
\<close>

record registration =
  reqName :: "string option"
  reqPhone :: "string option"
  reqType :: "string option"

text \<open>
  \<^verbatim>\<open>(lastPatient?.tokenNumber || 0) + 1\<close>. Tokens are numbers of JavaScript, that is
  doubles, here the integers among them. \<open>addOne x\<close> is \<^verbatim>\<open>x + 1\<close> on such a double: it
  is exact from \<open>- 2 ^ 53\<close> to below \<open>2 ^ 53\<close>; from there to below \<open>2 ^ 54\<close> in
  magnitude the doubles are the even integers, \<open>x + 1\<close> lies half way between \<open>x\<close> and
  \<open>x + 2\<close> and is rounded to the one with the even significand; from \<open>2 ^ 54\<close> on it
  is rounded to \<open>x\<close>.
\<close>

definition addOne :: "int \<Rightarrow> int" where
  "addOne x =
     (if - (2 ^ 53) \<le> x \<and> x < 2 ^ 53 then x + 1
      else if \<bar>x\<bar> < 2 ^ 54 then (if even (x div 2) then x else x + 2)
      else x)"

definition nextTokenNumber :: "store \<Rightarrow> int" where
  "nextTokenNumber db =
     addOne (case findLastPatient db of
               None \<Rightarrow> 0
             | Some lastPatient \<Rightarrow>
                 if tokenNumber lastPatient = 0 then 0 else tokenNumber lastPatient)"

definition parseType :: "string option \<Rightarrow> ptype option" where
  "parseType t =
     (case t of
        None \<Rightarrow> Some WALK_IN
      | Some s \<Rightarrow>
          if s = [] then Some WALK_IN
          else if s = ''BOOKED'' then Some BOOKED
          else if s = ''WALK_IN'' then Some WALK_IN
          else None)"

definition requiredString :: "string option \<Rightarrow> string option" where
  "requiredString v = (case v of None \<Rightarrow> None | Some s \<Rightarrow> if s = [] then None else Some s)"

definition registerPatient ::
  "tieOrder \<Rightarrow> notifier \<Rightarrow> nat \<Rightarrow> int \<Rightarrow> registration \<Rightarrow> store \<Rightarrow> outcome" where
  "registerPatient ties env oid now req db =
     (let token = nextTokenNumber db in
      case (requiredString (reqName req), requiredString (reqPhone req),
            parseType (reqType req)) of
        (Some n, Some ph, Some ty) \<Rightarrow>
          if oid \<in> set (map ident db) \<or> token \<in> set (map tokenNumber db)
          then \<lparr>storeAfter = db, published = None, reply = BadRequest\<rparr>
          else
            let patient = \<lparr>ident = oid, name = n, phone = ph, email = None,
                             tokenNumber = token, ptype = ty, status = WAITING,
                             department = ''General'', createdAt = now,
                             startedAt = None, completedAt = None\<rparr>;
                db' = db @ [patient];
                whatsappSent = sendWhatsAppMessage env ph token n
            in \<lparr>storeAfter = db', published = Some (publishQueue ties db'),
                reply = Created patient token whatsappSent\<rparr>
      | _ \<Rightarrow> \<lparr>storeAfter = db, published = None, reply = BadRequest\<rparr>)"

subsection \<open>\<^verbatim>\<open>PUT /api/patients/:id/status\<close>\<close>

text \<open>The identifier is well formed and the status of the body is one of the enum's values.\<close>

definition updateStatus :: "tieOrder \<Rightarrow> nat \<Rightarrow> status \<Rightarrow> store \<Rightarrow> outcome" where
  "updateStatus ties i st db =
     (case findByIdAndUpdate i (\<lambda>p. p\<lparr>status := st\<rparr>) db of
        (db', patient) \<Rightarrow>
          \<lparr>storeAfter = db', published = Some (publishQueue ties db'), reply = Json patient\<rparr>)"

subsection \<open>\<^verbatim>\<open>DELETE /api/patients/:id\<close>\<close>

definition deletePatient :: "tieOrder \<Rightarrow> nat \<Rightarrow> store \<Rightarrow> outcome" where
  "deletePatient ties i db =
     (case findByIdAndDelete i db of
        (db', None) \<Rightarrow> \<lparr>storeAfter = db', published = None, reply = NotFound\<rparr>
      | (db', Some patient) \<Rightarrow>
          \<lparr>storeAfter = db', published = Some (publishQueue ties db'), reply = Removed\<rparr>)"

text \<open>A sequence of registrations, each with its generated identifier and clock reading.\<close>

fun registerAll ::
  "tieOrder \<Rightarrow> notifier \<Rightarrow> (nat \<times> int \<times> registration) list \<Rightarrow> store \<Rightarrow> store" where
  "registerAll ties env [] db = db"
| "registerAll ties env ((oid, now, req) # rs) db =
     registerAll ties env rs (storeAfter (registerPatient ties env oid now req db))"

definition booking :: "string \<Rightarrow> string \<Rightarrow> registration" where
  "booking n t = \<lparr>reqName = Some n, reqPhone = Some ''9000000000'', reqType = Some t\<rparr>"

text \<open>The stores on whose tokens the sum of \<open>addOne\<close> is exact.\<close>

definition safeTokens :: "store \<Rightarrow> bool" where
  "safeTokens db = (\<forall>p \<in> set db. - (2 ^ 53) \<le> tokenNumber p \<and> tokenNumber p < 2 ^ 53)"

text \<open>The number of entries in progress, and a document for concrete stores.\<close>

definition inProgressCount :: "store \<Rightarrow> nat" where
  "inProgressCount db = length (filter (\<lambda>p. status p = IN_PROGRESS) db)"

text \<open>
  The order the specification names for each sublist: ascending \<open>createdAt\<close>, and
  ascending \<open>tokenNumber\<close> among equal \<open>createdAt\<close>.
\<close>

definition arrivalOrder :: "patient \<Rightarrow> patient \<Rightarrow> bool" where
  "arrivalOrder p q =
     (createdAt p < createdAt q \<or> (createdAt p = createdAt q \<and> tokenNumber p \<le> tokenNumber q))"

definition examplePatient :: "nat \<Rightarrow> ptype \<Rightarrow> status \<Rightarrow> int \<Rightarrow> patient" where
  "examplePatient i ty st t =
     \<lparr>ident = i, name = ''P'', phone = ''9000000000'', email = None,
      tokenNumber = int i, ptype = ty, status = st, department = ''General'',
      createdAt = t, startedAt = None, completedAt = None\<rparr>"

section \<open>The slotting loop computes the slotting policy\<close>

lemma forBooked_queue:
  "snd (forBooked bs i bi q) = q @ take (3 - i) (drop bi bs)"
proof (induction bs i bi q rule: forBooked.induct)
  case (1 bs i bi q)
  show ?case
  proof (cases "i < 3 \<and> bi < length bs")
    case True
    then have "3 - i = Suc (3 - (i + 1))"
      by arith
    then have "take (3 - i) (drop bi bs) = bs ! bi # take (3 - (i + 1)) (drop (bi + 1) bs)"
      using True by (simp add: Cons_nth_drop_Suc[symmetric] del: diff_Suc_Suc)
    with True 1 show ?thesis by (subst forBooked.simps) simp
  next
    case False
    then show ?thesis by (subst forBooked.simps) auto
  qed
qed

lemma forBooked_start:
  "forBooked bs 0 bi q =
     (if bi < length bs then min (length bs) (bi + 3) else bi, q @ take 3 (drop bi bs))"
  using forBooked_index[of bs 0 bi q] forBooked_queue[of bs 0 bi q]
  by (simp add: prod_eq_iff)

lemma pushWalkIn_eq:
  "pushWalkIn ws wi q = (if wi < length ws then wi + 1 else wi, q @ take 1 (drop wi ws))"
  by (simp add: pushWalkIn_def take_Suc_conv_app_nth Cons_nth_drop_Suc[symmetric])

lemma slottingLoop_slotMerge:
  "slottingLoop bs ws bi wi q = q @ slotMerge (drop bi bs) (drop wi ws)"
proof (induction bs ws bi wi q rule: slottingLoop.induct)
  case (1 bs ws bi wi q)
  show ?case
  proof (cases "bi < length bs \<or> wi < length ws")
    case False
    then show ?thesis
      by (subst slottingLoop.simps) (simp add: slotMerge.simps[of "[]" "[]"])
  next
    case True
    let ?bi = "if bi < length bs then min (length bs) (bi + 3) else bi"
    let ?wi = "if wi < length ws then wi + 1 else wi"
    let ?q1 = "q @ take 3 (drop bi bs)"
    let ?q2 = "?q1 @ take 1 (drop wi ws)"
    have IH: "slottingLoop bs ws ?bi ?wi ?q2 = ?q2 @ slotMerge (drop ?bi bs) (drop ?wi ws)"
      using 1[OF True forBooked_start[symmetric] pushWalkIn_eq[symmetric]] .
    have db: "drop ?bi bs = drop 3 (drop bi bs)"
      by (auto simp: min_def add.commute)
    have dw: "drop ?wi ws = drop 1 (drop wi ws)"
      by (auto simp: add.commute)
    have ne: "\<not> (drop bi bs = [] \<and> drop wi ws = [])"
      using True by auto
    have "slottingLoop bs ws bi wi q = slottingLoop bs ws ?bi ?wi ?q2"
      using True
      by (subst slottingLoop.simps) (simp add: forBooked_start pushWalkIn_eq)
    also have "\<dots> = q @ slotMerge (drop bi bs) (drop wi ws)"
      unfolding IH db dw using ne
      by (subst (2) slotMerge.simps) auto
    finally show ?thesis .
  qed
qed

lemma getSortedQueue_slotMerge:
  "getSortedQueue ties db =
     slotMerge (filter (\<lambda>p. ptype p = BOOKED) (findActive ties db))
               (filter (\<lambda>p. ptype p = WALK_IN) (findActive ties db))"
  by (simp add: getSortedQueue_def Let_def slottingLoop_slotMerge)

lemma slotMerge_Nil_Nil: "slotMerge [] [] = []"
  by (simp add: slotMerge.simps[of "[]" "[]"])

lemma slotMerge_unfold:
  "slotMerge bs ws = take 3 bs @ take 1 ws @ slotMerge (drop 3 bs) (drop 1 ws)"
proof (cases "bs = [] \<and> ws = []")
  case True
  then show ?thesis by (simp add: slotMerge_Nil_Nil)
next
  case False
  then show ?thesis by (subst slotMerge.simps) auto
qed

lemma slotMerge_Nil1: "slotMerge [] ws = ws"
proof (induction ws)
  case Nil
  show ?case by (rule slotMerge_Nil_Nil)
next
  case (Cons w ws)
  then show ?case by (subst slotMerge.simps) simp
qed

lemma slotMerge_Nil2: "slotMerge bs [] = bs"
proof (induction bs "[] :: 'a list" rule: slotMerge.induct)
  case (1 bs)
  show ?case
  proof (cases "bs = []")
    case True
    then show ?thesis by (simp add: slotMerge_Nil_Nil)
  next
    case False
    with 1 show ?thesis by (subst slotMerge.simps) simp
  qed
qed

lemmas register_eval =
  registerPatient_def booking_def requiredString_def parseType_def Let_def
  nextTokenNumber_def findLastPatient_def addOne_def

lemma sort_key_unique:
  assumes m: "mset ys = mset xs" and s: "sorted_wrt (<) (map f xs)"
  shows "sort_key f ys = xs"
proof -
  have d: "distinct (map f xs)" and so: "sorted (map f xs)"
    using s by (simp_all add: strict_sorted_iff)
  have "mset (map f (sort_key f ys)) = mset (map f xs)"
    using m by simp
  then have "sort (map f (sort_key f ys)) = map f xs"
    using so by (intro properties_for_sort) simp_all
  then have e: "map f (sort_key f ys) = map f xs"
    by (simp add: sorted_sort_id)
  have "set (sort_key f ys) = set xs"
    using m by (metis set_mset_mset set_sort)
  moreover have "inj_on f (set xs)"
    using d by (simp add: distinct_map)
  ultimately show ?thesis
    using e by (simp add: inj_on_map_eq_map)
qed

lemma scenario_A:
  assumes "sorted [t1, t2, t3, t4, t5, t6]"
  shows "map name (getSortedQueue (\<lambda>xs. xs) (registerAll (\<lambda>xs. xs) env
           [(1, t1, booking ''B1'' ''BOOKED''), (2, t2, booking ''B2'' ''BOOKED''),
            (3, t3, booking ''B3'' ''BOOKED''), (4, t4, booking ''B4'' ''BOOKED''),
            (5, t5, booking ''W1'' ''WALK_IN''), (6, t6, booking ''W2'' ''WALK_IN'')] []))
         = [''B1'', ''B2'', ''B3'', ''W1'', ''B4'', ''W2'']"
  using assms
  apply (simp add: register_eval getSortedQueue_slotMerge findActive_def isActive_def)
  apply (simp add: slotMerge.simps[of "_ # _"] slotMerge.simps[of "[]" "_ # _"]
      slotMerge_Nil_Nil)
  done

lemma scenario_A_any_ties:
  assumes r: "rearranges ties" and t: "sorted_wrt (<) [t1, t2, t3, t4, t5, t6]"
  shows "map name (getSortedQueue ties (registerAll ties env
           [(1, t1, booking ''B1'' ''BOOKED''), (2, t2, booking ''B2'' ''BOOKED''),
            (3, t3, booking ''B3'' ''BOOKED''), (4, t4, booking ''B4'' ''BOOKED''),
            (5, t5, booking ''W1'' ''WALK_IN''), (6, t6, booking ''W2'' ''WALK_IN'')] []))
         = [''B1'', ''B2'', ''B3'', ''W1'', ''B4'', ''W2'']"
proof -
  define db where "db = registerAll ties env
           [(1, t1, booking ''B1'' ''BOOKED''), (2, t2, booking ''B2'' ''BOOKED''),
            (3, t3, booking ''B3'' ''BOOKED''), (4, t4, booking ''B4'' ''BOOKED''),
            (5, t5, booking ''W1'' ''WALK_IN''), (6, t6, booking ''W2'' ''WALK_IN'')] []"
  have a: "filter isActive db = db"
    unfolding db_def by (simp add: register_eval isActive_def)
  have c: "map createdAt db = [t1, t2, t3, t4, t5, t6]"
    unfolding db_def by (simp add: register_eval)
  have "mset (ties db) = mset db"
    using r by (simp add: rearranges_def)
  then have f: "findActive ties db = db"
    unfolding findActive_def a using t by (intro sort_key_unique) (simp_all only: c)
  have "map name (getSortedQueue ties db) = [''B1'', ''B2'', ''B3'', ''W1'', ''B4'', ''W2'']"
    unfolding getSortedQueue_slotMerge f
    unfolding db_def
    apply (simp add: register_eval)
    apply (simp add: slotMerge.simps[of "_ # _"] slotMerge.simps[of "[]" "_ # _"]
      slotMerge_Nil_Nil)
    done
  then show ?thesis
    unfolding db_def .
qed

text \<open>
  Claim C1. The queue that \<open>getSortedQueue\<close> returns is the slotting policy applied to
  the booked and the walk-in sublist of the active entries, whatever order the store
  gives to equal \<open>createdAt\<close>: up to three from the front of the booked list, then one
  from the front of the walk-in list, and again on what is left. When one of the two
  lists is empty the other comes out as it is. Registering the booked entries B1, B2,
  B3, B4 and then the walk-ins W1, W2 composes to B1, B2, B3, W1, B4, W2: at clock
  readings that do not decrease when the store keeps equal readings in the order of
  enumeration, and at increasing clock readings for every store.
\<close>

theorem getSortedQueue_hybrid_slotting:
  "getSortedQueue ties db =
     slotMerge (filter (\<lambda>p. ptype p = BOOKED) (findActive ties db))
               (filter (\<lambda>p. ptype p = WALK_IN) (findActive ties db))
   \<and> slotMerge bs ws = take 3 bs @ take 1 ws @ slotMerge (drop 3 bs) (drop 1 ws)
   \<and> slotMerge [] ws = ws
   \<and> slotMerge bs [] = bs
   \<and> (sorted [t1, t2, t3, t4, t5, t6] \<longrightarrow>
        map name (getSortedQueue (\<lambda>xs. xs) (registerAll (\<lambda>xs. xs) env
          [(1, t1, booking ''B1'' ''BOOKED''), (2, t2, booking ''B2'' ''BOOKED''),
           (3, t3, booking ''B3'' ''BOOKED''), (4, t4, booking ''B4'' ''BOOKED''),
           (5, t5, booking ''W1'' ''WALK_IN''), (6, t6, booking ''W2'' ''WALK_IN'')] []))
        = [''B1'', ''B2'', ''B3'', ''W1'', ''B4'', ''W2''])
   \<and> (rearranges ties \<and> sorted_wrt (<) [t1, t2, t3, t4, t5, t6] \<longrightarrow>
        map name (getSortedQueue ties (registerAll ties env
          [(1, t1, booking ''B1'' ''BOOKED''), (2, t2, booking ''B2'' ''BOOKED''),
           (3, t3, booking ''B3'' ''BOOKED''), (4, t4, booking ''B4'' ''BOOKED''),
           (5, t5, booking ''W1'' ''WALK_IN''), (6, t6, booking ''W2'' ''WALK_IN'')] []))
        = [''B1'', ''B2'', ''B3'', ''W1'', ''B4'', ''W2''])"
  using getSortedQueue_slotMerge[of ties db] slotMerge_unfold[of bs ws] slotMerge_Nil1[of ws]
    slotMerge_Nil2[of bs] scenario_A[of t1 t2 t3 t4 t5 t6 env]
    scenario_A_any_ties[of ties t1 t2 t3 t4 t5 t6 env]
  by blast

theorem getSortedQueue_hybrid_slotting_witness:
  "sorted [0, 0, 0, 0, 0, 0 :: int]
   \<and> map name (getSortedQueue (\<lambda>xs. xs)
        (registerAll (\<lambda>xs. xs) \<lparr>shouldSend = False, twilio = None\<rparr>
          [(1, 0, booking ''B1'' ''BOOKED''), (2, 0, booking ''B2'' ''BOOKED''),
           (3, 0, booking ''B3'' ''BOOKED''), (4, 0, booking ''B4'' ''BOOKED''),
           (5, 0, booking ''W1'' ''WALK_IN''), (6, 0, booking ''W2'' ''WALK_IN'')] []))
        = [''B1'', ''B2'', ''B3'', ''W1'', ''B4'', ''W2'']
   \<and> rearranges rev \<and> sorted_wrt (<) [1, 2, 3, 4, 5, 6 :: int]
   \<and> map name (getSortedQueue rev
        (registerAll rev \<lparr>shouldSend = False, twilio = None\<rparr>
          [(1, 1, booking ''B1'' ''BOOKED''), (2, 2, booking ''B2'' ''BOOKED''),
           (3, 3, booking ''B3'' ''BOOKED''), (4, 4, booking ''B4'' ''BOOKED''),
           (5, 5, booking ''W1'' ''WALK_IN''), (6, 6, booking ''W2'' ''WALK_IN'')] []))
        = [''B1'', ''B2'', ''B3'', ''W1'', ''B4'', ''W2'']
   \<and> slotMerge [1, 2, 3, 4, 5 :: nat] [] = [1, 2, 3, 4, 5]
   \<and> slotMerge [] [6, 7 :: nat] = [6, 7]"
proof -
  have s: "sorted [0, 0, 0, 0, 0, 0 :: int]"
    by simp
  have r: "rearranges rev"
    by (simp add: rearranges_def)
  have t: "sorted_wrt (<) [1, 2, 3, 4, 5, 6 :: int]"
    by simp
  show ?thesis
    using s r t
      getSortedQueue_hybrid_slotting[of "\<lambda>xs. xs" "[]" "[1, 2, 3, 4, 5 :: nat]" "[6, 7]"
        0 0 0 0 0 0 "\<lparr>shouldSend = False, twilio = None\<rparr>"]
      getSortedQueue_hybrid_slotting[of rev "[]" "[1, 2, 3, 4, 5 :: nat]" "[6, 7]"
        1 2 3 4 5 6 "\<lparr>shouldSend = False, twilio = None\<rparr>"]
    by blast
qed

section \<open>The composed queue is a stable permutation of the active entries\<close>

lemma mset_slotMerge: "mset (slotMerge bs ws) = mset bs + mset ws"
proof (induction bs ws rule: slotMerge.induct)
  case (1 bs ws)
  show ?case
  proof (cases "bs = [] \<and> ws = []")
    case True
    then show ?thesis by (simp add: slotMerge_Nil_Nil)
  next
    case False
    have "mset (slotMerge bs ws) =
            mset (take 3 bs) + mset (take 1 ws) + (mset (drop 3 bs) + mset (drop 1 ws))"
      using 1[OF False] by (subst slotMerge.simps) (simp add: False)
    also have "\<dots> = mset (take 3 bs @ drop 3 bs) + mset (take 1 ws @ drop 1 ws)"
      by (simp only: mset_append ac_simps)
    finally show ?thesis by simp
  qed
qed

lemma filter_slotMerge_booked:
  assumes "\<forall>b \<in> set bs. P b" and "\<forall>w \<in> set ws. \<not> P w"
  shows "filter P (slotMerge bs ws) = bs"
  using assms
proof (induction bs ws rule: slotMerge.induct)
  case (1 bs ws)
  show ?case
  proof (cases "bs = [] \<and> ws = []")
    case True
    then show ?thesis by (simp add: slotMerge_Nil_Nil)
  next
    case False
    have b: "\<forall>b \<in> set (drop 3 bs). P b" and w: "\<forall>w \<in> set (drop 1 ws). \<not> P w"
      and tb: "\<forall>b \<in> set (take 3 bs). P b" and tw: "\<forall>w \<in> set (take 1 ws). \<not> P w"
      using "1.prems" by (auto dest: in_set_dropD in_set_takeD)
    have "filter P (slotMerge bs ws) = take 3 bs @ drop 3 bs"
      using 1(1)[OF False b w] tb tw
      by (subst slotMerge.simps) (simp add: False filter_id_conv filter_empty_conv)
    then show ?thesis by simp
  qed
qed

lemma filter_slotMerge_walkIn:
  assumes "\<forall>b \<in> set bs. \<not> P b" and "\<forall>w \<in> set ws. P w"
  shows "filter P (slotMerge bs ws) = ws"
  using assms
proof (induction bs ws rule: slotMerge.induct)
  case (1 bs ws)
  show ?case
  proof (cases "bs = [] \<and> ws = []")
    case True
    then show ?thesis by (simp add: slotMerge_Nil_Nil)
  next
    case False
    have b: "\<forall>b \<in> set (drop 3 bs). \<not> P b" and w: "\<forall>w \<in> set (drop 1 ws). P w"
      and tb: "\<forall>b \<in> set (take 3 bs). \<not> P b" and tw: "\<forall>w \<in> set (take 1 ws). P w"
      using "1.prems" by (auto dest: in_set_dropD in_set_takeD)
    have "filter P (slotMerge bs ws) = take 1 ws @ drop 1 ws"
      using 1(1)[OF False b w] tb tw
      by (subst slotMerge.simps) (simp add: False filter_id_conv filter_empty_conv)
    then show ?thesis by simp
  qed
qed

lemma ptype_partition:
  "mset (filter (\<lambda>p. ptype p = BOOKED) xs) + mset (filter (\<lambda>p. ptype p = WALK_IN) xs) = mset xs"
proof (induction xs)
  case Nil
  show ?case by simp
next
  case (Cons x xs)
  then show ?case by (cases "ptype x") simp_all
qed

lemma mset_getSortedQueue_findActive:
  "mset (getSortedQueue ties db) = mset (findActive ties db)"
  unfolding getSortedQueue_slotMerge mset_slotMerge by (rule ptype_partition)

lemma mset_findActive:
  "rearranges ties \<Longrightarrow> mset (findActive ties db) = mset (filter isActive db)"
  by (simp add: findActive_def rearranges_def)

lemma mset_getSortedQueue:
  "rearranges ties \<Longrightarrow> mset (getSortedQueue ties db) = mset (filter isActive db)"
  by (simp only: mset_getSortedQueue_findActive mset_findActive)

lemma length_getSortedQueue:
  "rearranges ties \<Longrightarrow> length (getSortedQueue ties db) = length (filter isActive db)"
  using mset_getSortedQueue[of ties db] by (metis size_mset)

lemma set_getSortedQueue:
  assumes "rearranges ties"
  shows "set (getSortedQueue ties db) = {p \<in> set db. isActive p}"
proof -
  have "set (getSortedQueue ties db) = set (filter isActive db)"
    using mset_getSortedQueue[OF assms, of db] by (metis set_mset_mset)
  then show ?thesis by simp
qed

lemma booked_getSortedQueue:
  "filter (\<lambda>p. ptype p = BOOKED) (getSortedQueue ties db)
     = filter (\<lambda>p. ptype p = BOOKED) (findActive ties db)"
  unfolding getSortedQueue_slotMerge
  by (rule filter_slotMerge_booked) auto

lemma walkIn_getSortedQueue:
  "filter (\<lambda>p. ptype p = WALK_IN) (getSortedQueue ties db)
     = filter (\<lambda>p. ptype p = WALK_IN) (findActive ties db)"
  unfolding getSortedQueue_slotMerge
  by (rule filter_slotMerge_walkIn) auto

lemma distinct_getSortedQueue:
  "rearranges ties \<Longrightarrow> distinct (filter isActive db) \<Longrightarrow> distinct (getSortedQueue ties db)"
  using mset_getSortedQueue[of ties db] by (metis mset_eq_imp_distinct_iff)

text \<open>
  Claim C2. Whatever order the store gives to equal \<open>createdAt\<close>, the composed queue
  holds exactly the active entries of the store, each as often as the store holds it:
  it has their number, repeats none when they are distinct, and its booked entries and
  its walk-in entries stand in the order in which the sorted query returned them.
\<close>

theorem getSortedQueue_stable_permutation:
  assumes "rearranges ties"
  shows "mset (getSortedQueue ties db) = mset (filter isActive db)
   \<and> mset (getSortedQueue ties db) = mset (findActive ties db)
   \<and> length (getSortedQueue ties db) = length (filter isActive db)
   \<and> (distinct (filter isActive db) \<longrightarrow> distinct (getSortedQueue ties db))
   \<and> filter (\<lambda>p. ptype p = BOOKED) (getSortedQueue ties db)
       = filter (\<lambda>p. ptype p = BOOKED) (findActive ties db)
   \<and> filter (\<lambda>p. ptype p = WALK_IN) (getSortedQueue ties db)
       = filter (\<lambda>p. ptype p = WALK_IN) (findActive ties db)"
  using mset_getSortedQueue[OF assms, of db] mset_getSortedQueue_findActive[of ties db]
    length_getSortedQueue[OF assms, of db] distinct_getSortedQueue[OF assms, of db]
    booked_getSortedQueue[of ties db] walkIn_getSortedQueue[of ties db]
  by blast

theorem getSortedQueue_stable_permutation_witness:
  "rearranges rev
   \<and> distinct (filter isActive
      [examplePatient 1 WALK_IN WAITING 3, examplePatient 2 BOOKED DONE 4,
       examplePatient 3 BOOKED IN_PROGRESS 5])
   \<and> distinct (getSortedQueue rev
      [examplePatient 1 WALK_IN WAITING 3, examplePatient 2 BOOKED DONE 4,
       examplePatient 3 BOOKED IN_PROGRESS 5])
   \<and> length (getSortedQueue rev
      [examplePatient 1 WALK_IN WAITING 3, examplePatient 2 BOOKED DONE 4,
       examplePatient 3 BOOKED IN_PROGRESS 5]) = 2"
proof -
  let ?db = "[examplePatient 1 WALK_IN WAITING 3, examplePatient 2 BOOKED DONE 4,
       examplePatient 3 BOOKED IN_PROGRESS 5]"
  have r: "rearranges rev"
    by (simp add: rearranges_def)
  have d: "distinct (filter isActive ?db)"
    by (simp add: isActive_def examplePatient_def)
  have l: "length (filter isActive ?db) = 2"
    by (simp add: isActive_def examplePatient_def)
  show ?thesis
    using r d l getSortedQueue_stable_permutation[OF r, of ?db] by simp
qed

section \<open>Wait times\<close>

lemma length_calculateWaitTimes: "length (calculateWaitTimes queue) = length queue"
  by (simp add: calculateWaitTimes_def)

lemma nth_calculateWaitTimes:
  "i < length queue \<Longrightarrow>
   calculateWaitTimes queue ! i =
     patient.extend (queue ! i)
       \<lparr>position = (if status (queue ! i) = IN_PROGRESS then 0 else i),
        estimatedWaitTime = (if status (queue ! i) = IN_PROGRESS then 0 else i) * 15\<rparr>"
  by (simp add: calculateWaitTimes_def nth_enumerate_eq Let_def)

lemma truncate_calculateWaitTimes:
  "map patient.truncate (calculateWaitTimes queue) = queue"
  by (rule nth_equalityI)
     (simp_all add: length_calculateWaitTimes nth_calculateWaitTimes patient.truncate_def
        patient.extend_def)

lemma position_calculateWaitTimes:
  "i < length queue \<Longrightarrow>
   position (calculateWaitTimes queue ! i) = (if status (queue ! i) = IN_PROGRESS then 0 else i)"
  by (simp add: nth_calculateWaitTimes patient.extend_def)

lemma wait_calculateWaitTimes:
  "i < length queue \<Longrightarrow>
   estimatedWaitTime (calculateWaitTimes queue ! i)
     = position (calculateWaitTimes queue ! i) * 15"
  by (simp add: nth_calculateWaitTimes patient.extend_def)

text \<open>
  Claim C5. \<open>calculateWaitTimes\<close> returns one item for each entry, in the order of its
  input and with the entry's own fields: without the two attached fields the output is
  the input. The item at index \<open>i\<close> has position 0 when its entry is in progress and
  position \<open>i\<close>, its index in the whole input, otherwise; its estimated wait is its
  position times 15.
\<close>

theorem calculateWaitTimes_annotates:
  "length (calculateWaitTimes queue) = length queue
   \<and> map patient.truncate (calculateWaitTimes queue) = queue
   \<and> (\<forall>i < length queue.
        position (calculateWaitTimes queue ! i)
          = (if status (queue ! i) = IN_PROGRESS then 0 else i)
        \<and> estimatedWaitTime (calculateWaitTimes queue ! i)
          = position (calculateWaitTimes queue ! i) * 15)"
  using length_calculateWaitTimes[of queue] truncate_calculateWaitTimes[of queue]
    position_calculateWaitTimes[of _ queue] wait_calculateWaitTimes[of _ queue]
  by blast

theorem calculateWaitTimes_annotates_witness:
  "(1 :: nat) < length [examplePatient 1 BOOKED IN_PROGRESS 3, examplePatient 2 BOOKED WAITING 4]
   \<and> position (calculateWaitTimes
        [examplePatient 1 BOOKED IN_PROGRESS 3, examplePatient 2 BOOKED WAITING 4] ! 1) = 1
   \<and> estimatedWaitTime (calculateWaitTimes
        [examplePatient 1 BOOKED IN_PROGRESS 3, examplePatient 2 BOOKED WAITING 4] ! 1) = 15"
  using calculateWaitTimes_annotates
    [of "[examplePatient 1 BOOKED IN_PROGRESS 3, examplePatient 2 BOOKED WAITING 4]"]
  by (simp add: examplePatient_def)

text \<open>
  Claim C10. When the input holds more than one entry in progress, each of them gets
  position 0 and estimated wait 0, and every other entry gets its index in the whole
  input as position and 15 times that index as estimated wait.
\<close>

theorem calculateWaitTimes_several_in_progress:
  assumes "1 < inProgressCount queue"
  shows "\<forall>i < length queue.
           (status (queue ! i) = IN_PROGRESS \<longrightarrow>
              position (calculateWaitTimes queue ! i) = 0
              \<and> estimatedWaitTime (calculateWaitTimes queue ! i) = 0)
           \<and> (status (queue ! i) \<noteq> IN_PROGRESS \<longrightarrow>
              position (calculateWaitTimes queue ! i) = i
              \<and> estimatedWaitTime (calculateWaitTimes queue ! i) = i * 15)"
  by (simp add: position_calculateWaitTimes wait_calculateWaitTimes)

theorem calculateWaitTimes_several_in_progress_witness:
  "1 < inProgressCount
         [examplePatient 1 BOOKED IN_PROGRESS 3, examplePatient 2 WALK_IN WAITING 4,
          examplePatient 3 BOOKED IN_PROGRESS 5]
   \<and> position (calculateWaitTimes
         [examplePatient 1 BOOKED IN_PROGRESS 3, examplePatient 2 WALK_IN WAITING 4,
          examplePatient 3 BOOKED IN_PROGRESS 5] ! 0) = 0
   \<and> position (calculateWaitTimes
         [examplePatient 1 BOOKED IN_PROGRESS 3, examplePatient 2 WALK_IN WAITING 4,
          examplePatient 3 BOOKED IN_PROGRESS 5] ! 1) = 1
   \<and> position (calculateWaitTimes
         [examplePatient 1 BOOKED IN_PROGRESS 3, examplePatient 2 WALK_IN WAITING 4,
          examplePatient 3 BOOKED IN_PROGRESS 5] ! 2) = 0
   \<and> estimatedWaitTime (calculateWaitTimes
         [examplePatient 1 BOOKED IN_PROGRESS 3, examplePatient 2 WALK_IN WAITING 4,
          examplePatient 3 BOOKED IN_PROGRESS 5] ! 2) = 0"
proof -
  let ?q = "[examplePatient 1 BOOKED IN_PROGRESS 3, examplePatient 2 WALK_IN WAITING 4,
          examplePatient 3 BOOKED IN_PROGRESS 5]"
  have c: "1 < inProgressCount ?q"
    by (simp add: inProgressCount_def examplePatient_def)
  have s: "status (?q ! 0) = IN_PROGRESS" "status (?q ! 1) \<noteq> IN_PROGRESS"
    "status (?q ! 2) = IN_PROGRESS"
    by (simp_all add: examplePatient_def)
  have n: "0 < length ?q" "1 < length ?q" "2 < length ?q"
    by simp_all
  note t = calculateWaitTimes_several_in_progress[OF c, rule_format]
  show ?thesis
    using c t[OF n(1)] t[OF n(2)] t[OF n(3)] s by blast
qed

section \<open>The serving controller\<close>

lemma findOneAndUpdate_none:
  "\<forall>p \<in> set db. \<not> c p \<Longrightarrow> findOneAndUpdate c f db = (db, None)"
  by (induction db) auto

lemma findOneAndUpdate_first:
  "\<forall>x \<in> set xs. \<not> c x \<Longrightarrow> c p \<Longrightarrow>
   findOneAndUpdate c f (xs @ p # ys) = (xs @ f p # ys, Some (f p))"
  by (induction xs) auto

lemma findOneAndUpdate_ident:
  "(\<And>p. ident (f p) = ident p) \<Longrightarrow> map ident (fst (findOneAndUpdate c f db)) = map ident db"
  by (induction db) (auto split: prod.splits)

lemma findOneAndUpdate_mem:
  "p \<in> set (fst (findOneAndUpdate c f db)) \<Longrightarrow> p \<in> set db \<or> (\<exists>q \<in> set db. c q \<and> p = f q)"
  by (induction db) (auto split: prod.splits if_splits)

lemma findOneAndUpdate_count_done:
  "(\<And>p. \<not> P (f p)) \<Longrightarrow>
   length (filter P (fst (findOneAndUpdate P f db))) = length (filter P db) - 1"
  by (induction db) (auto split: prod.splits)

lemma findOneAndUpdate_count_le:
  "length (filter P (fst (findOneAndUpdate c f db))) \<le> Suc (length (filter P db))"
  by (induction db) (auto split: prod.splits)

lemma findOneAndUpdate_by_ident:
  assumes "distinct (map ident db)" and "\<And>p. ident (f p) = ident p"
  shows "fst (findOneAndUpdate (\<lambda>p. ident p = i) f db)
           = map (\<lambda>p. if ident p = i then f p else p) db"
  using assms(1)
proof (induction db)
  case Nil
  show ?case by simp
next
  case (Cons p ps)
  show ?case
  proof (cases "ident p = i")
    case True
    then have "\<forall>q \<in> set ps. ident q \<noteq> i"
      using Cons.prems by (auto simp: image_iff)
    then have "map (\<lambda>p. if ident p = i then f p else p) ps = ps"
      by (simp add: map_idI)
    with True show ?thesis by simp
  next
    case False
    with Cons show ?thesis by (auto split: prod.splits)
  qed
qed

lemma completeCurrent_none:
  "\<forall>p \<in> set db. status p \<noteq> IN_PROGRESS \<Longrightarrow> completeCurrent t1 db = (db, None)"
  unfolding completeCurrent_def by (rule findOneAndUpdate_none)

lemma completeCurrent_some:
  assumes "\<exists>p \<in> set db. status p = IN_PROGRESS"
  shows "\<exists>xs p ys. db = xs @ p # ys \<and> (\<forall>x \<in> set xs. status x \<noteq> IN_PROGRESS)
           \<and> status p = IN_PROGRESS
           \<and> completeCurrent t1 db
               = (xs @ p\<lparr>status := DONE, completedAt := Some t1\<rparr> # ys,
                  Some (p\<lparr>status := DONE, completedAt := Some t1\<rparr>))"
proof -
  obtain xs p ys where s: "db = xs @ p # ys" "status p = IN_PROGRESS"
    "\<forall>x \<in> set xs. status x \<noteq> IN_PROGRESS"
    using split_list_first_prop[OF assms] by blast
  have "completeCurrent t1 (xs @ p # ys)
          = (xs @ p\<lparr>status := DONE, completedAt := Some t1\<rparr> # ys,
             Some (p\<lparr>status := DONE, completedAt := Some t1\<rparr>))"
    unfolding completeCurrent_def using s(3) s(2) by (rule findOneAndUpdate_first)
  with s show ?thesis by blast
qed

lemma completeCurrent_count:
  "inProgressCount (fst (completeCurrent t1 db)) = inProgressCount db - 1"
  unfolding inProgressCount_def completeCurrent_def
  by (rule findOneAndUpdate_count_done) simp

lemma completeCurrent_ident: "map ident (fst (completeCurrent t1 db)) = map ident db"
  unfolding completeCurrent_def by (rule findOneAndUpdate_ident) simp

lemma startNext_empty: "getSortedQueue ties db = [] \<Longrightarrow> startNext ties t2 db = db"
  by (simp add: startNext_def)

lemma startNext_head:
  assumes "distinct (map ident db)" and "getSortedQueue ties db \<noteq> []"
  shows "startNext ties t2 db
           = map (\<lambda>p. if ident p = ident (hd (getSortedQueue ties db))
                       then p\<lparr>status := IN_PROGRESS, startedAt := Some t2\<rparr> else p) db"
proof -
  obtain q0 rest where q: "getSortedQueue ties db = q0 # rest"
    using assms(2) by (cases "getSortedQueue ties db") auto
  show ?thesis
    using findOneAndUpdate_by_ident[OF assms(1),
        of "\<lambda>p. p\<lparr>status := IN_PROGRESS, startedAt := Some t2\<rparr>" "ident q0"]
    by (simp add: startNext_def q findByIdAndUpdate_def)
qed

lemma hd_getSortedQueue_mem:
  "rearranges ties \<Longrightarrow> getSortedQueue ties db \<noteq> [] \<Longrightarrow>
   hd (getSortedQueue ties db) \<in> set db \<and> isActive (hd (getSortedQueue ties db))"
  using set_getSortedQueue[of ties db] hd_in_set[of "getSortedQueue ties db"] by blast

lemma startNext_count:
  "inProgressCount (startNext ties t2 db) \<le> Suc (inProgressCount db)"
  by (auto simp: startNext_def inProgressCount_def findByIdAndUpdate_def
      findOneAndUpdate_count_le split: list.splits)

lemma startNext_ident: "map ident (startNext ties t2 db) = map ident db"
  by (auto simp: startNext_def findByIdAndUpdate_def findOneAndUpdate_ident split: list.splits)

lemma inProgressCount_0:
  "inProgressCount db = 0 \<longleftrightarrow> (\<forall>p \<in> set db. status p \<noteq> IN_PROGRESS)"
  by (auto simp: inProgressCount_def filter_empty_conv)

lemma no_active_no_inProgress:
  "rearranges ties \<Longrightarrow> getSortedQueue ties db = [] \<Longrightarrow>
   \<forall>p \<in> set db. status p \<noteq> IN_PROGRESS"
  using set_getSortedQueue[of ties db] by (auto simp: isActive_def)

lemma storeAfter_startConsultation:
  "storeAfter (startConsultation ties t1 t2 db) = startNext ties t2 (fst (completeCurrent t1 db))"
  by (simp add: startConsultation_def Let_def)

lemma published_startConsultation:
  "published (startConsultation ties t1 t2 db)
     = Some (calculateWaitTimes (getSortedQueue ties (storeAfter (startConsultation ties t1 t2 db))))"
  by (simp add: startConsultation_def Let_def publishQueue_def)

lemma reply_startConsultation:
  "reply (startConsultation ties t1 t2 db)
     = ConsultationStarted
         (calculateWaitTimes (getSortedQueue ties (storeAfter (startConsultation ties t1 t2 db))))"
  by (simp add: startConsultation_def Let_def publishQueue_def)

lemma startConsultation_empty:
  assumes r: "rearranges ties" and e: "getSortedQueue ties (fst (completeCurrent t1 db)) = []"
  shows "storeAfter (startConsultation ties t1 t2 db) = fst (completeCurrent t1 db)
         \<and> (\<forall>p \<in> set (storeAfter (startConsultation ties t1 t2 db)). status p \<noteq> IN_PROGRESS)
         \<and> published (startConsultation ties t1 t2 db) = Some []
         \<and> reply (startConsultation ties t1 t2 db) = ConsultationStarted []"
proof -
  have s: "storeAfter (startConsultation ties t1 t2 db) = fst (completeCurrent t1 db)"
    by (simp add: storeAfter_startConsultation startNext_empty[OF e])
  have c: "calculateWaitTimes [] = []"
    by (simp add: calculateWaitTimes_def)
  show ?thesis
    using no_active_no_inProgress[OF r e]
    by (simp add: published_startConsultation reply_startConsultation s e c)
qed

lemma startConsultation_count:
  "inProgressCount db \<le> 1 \<Longrightarrow> inProgressCount (storeAfter (startConsultation ties t1 t2 db)) \<le> 1"
  using startNext_count[of ties t2 "fst (completeCurrent t1 db)"] completeCurrent_count[of t1 db]
  by (simp add: storeAfter_startConsultation)

lemma advanceAll_count:
  "inProgressCount db \<le> 1 \<Longrightarrow> inProgressCount (advanceAll ties ts db) \<le> 1"
proof (induction ts arbitrary: db)
  case Nil
  then show ?case by simp
next
  case (Cons t ts)
  obtain t1 t2 where t: "t = (t1, t2)" by (cases t)
  show ?case
    unfolding t advanceAll.simps
    by (rule Cons.IH) (rule startConsultation_count[OF Cons.prems])
qed

lemma startConsultation_ident:
  "map ident (storeAfter (startConsultation ties t1 t2 db)) = map ident db"
  by (simp add: storeAfter_startConsultation startNext_ident completeCurrent_ident)

lemma advanceAll_ident: "map ident (advanceAll ties ts db) = map ident db"
  by (induction ts arbitrary: db) (auto simp: startConsultation_ident)

lemma startNext_inProgress:
  assumes z: "inProgressCount db = 0"
    and p: "p \<in> set (startNext ties t2 db)" and s: "status p = IN_PROGRESS"
  shows "getSortedQueue ties db \<noteq> [] \<and> ident p = ident (hd (getSortedQueue ties db))
         \<and> (distinct (map ident db) \<and> rearranges ties \<longrightarrow>
              p = (hd (getSortedQueue ties db))\<lparr>status := IN_PROGRESS, startedAt := Some t2\<rparr>)"
proof (cases "getSortedQueue ties db")
  case Nil
  then have "startNext ties t2 db = db" by (simp add: startNext_def)
  with z p s show ?thesis by (auto simp: inProgressCount_0)
next
  case (Cons q0 rest)
  let ?f = "\<lambda>p. p\<lparr>status := IN_PROGRESS, startedAt := Some t2\<rparr>"
  have q0: "rearranges ties \<Longrightarrow> q0 \<in> set db"
    using set_getSortedQueue[of ties db] Cons by auto
  have "p \<in> set (fst (findOneAndUpdate (\<lambda>p. ident p = ident q0) ?f db))"
    using p Cons by (simp add: startNext_def findByIdAndUpdate_def)
  then have "p \<in> set db \<or> (\<exists>q \<in> set db. ident q = ident q0 \<and> p = ?f q)"
    by (rule findOneAndUpdate_mem)
  then obtain q where q: "q \<in> set db" "ident q = ident q0" "p = ?f q"
    using z s by (auto simp: inProgressCount_0)
  have "distinct (map ident db) \<Longrightarrow> rearranges ties \<Longrightarrow> q = q0"
    using q q0 by (auto simp: distinct_map inj_on_def)
  with q Cons show ?thesis by auto
qed

lemma startConsultation_inProgress:
  assumes c: "inProgressCount db \<le> 1"
    and p: "p \<in> set (storeAfter (startConsultation ties t1 t2 db))" and s: "status p = IN_PROGRESS"
  shows "getSortedQueue ties (fst (completeCurrent t1 db)) \<noteq> []
         \<and> ident p = ident (hd (getSortedQueue ties (fst (completeCurrent t1 db))))
         \<and> (distinct (map ident db) \<and> rearranges ties \<longrightarrow>
              p = (hd (getSortedQueue ties (fst (completeCurrent t1 db))))
                    \<lparr>status := IN_PROGRESS, startedAt := Some t2\<rparr>)"
proof -
  have z: "inProgressCount (fst (completeCurrent t1 db)) = 0"
    using c by (simp add: completeCurrent_count)
  have d: "distinct (map ident db) \<Longrightarrow> distinct (map ident (fst (completeCurrent t1 db)))"
    by (simp add: completeCurrent_ident)
  show ?thesis
    using startNext_inProgress[OF z p[unfolded storeAfter_startConsultation] s] d by blast
qed


lemmas queue_eval =
  getSortedQueue_slotMerge findActive_def isActive_def examplePatient_def
  slotMerge.simps[of "_ # _"] slotMerge.simps[of "[]" "_ # _"] slotMerge_Nil_Nil

lemmas advance_eval =
  startConsultation_def completeCurrent_def startNext_def findByIdAndUpdate_def Let_def

text \<open>
  Claim C3. \<^verbatim>\<open>START_CONSULTATION\<close>, whatever order the store gives to equal
  \<open>createdAt\<close>: when no entry is in progress, completing the current entry changes
  nothing and returns no document; otherwise the first entry in progress becomes DONE
  with \<open>completedAt\<close> set. The store after the handler is the store after that
  completion with the head of its composed queue started: when that queue is empty
  nothing else changes, no entry is in progress and the empty queue is published; when
  it is not empty (identifiers being unique) exactly the head's document becomes
  IN_PROGRESS with \<open>startedAt\<close> set. The handler always publishes the annotated queue
  of the final store and replies with it.
\<close>

theorem startConsultation_advances:
  assumes "rearranges ties"
  shows
  "((\<forall>p \<in> set db. status p \<noteq> IN_PROGRESS) \<longrightarrow> completeCurrent t1 db = (db, None))
   \<and> ((\<exists>p \<in> set db. status p = IN_PROGRESS) \<longrightarrow>
        (\<exists>xs p ys. db = xs @ p # ys \<and> (\<forall>x \<in> set xs. status x \<noteq> IN_PROGRESS)
           \<and> status p = IN_PROGRESS
           \<and> completeCurrent t1 db
               = (xs @ p\<lparr>status := DONE, completedAt := Some t1\<rparr> # ys,
                  Some (p\<lparr>status := DONE, completedAt := Some t1\<rparr>))))
   \<and> storeAfter (startConsultation ties t1 t2 db) = startNext ties t2 (fst (completeCurrent t1 db))
   \<and> (getSortedQueue ties (fst (completeCurrent t1 db)) = [] \<longrightarrow>
        storeAfter (startConsultation ties t1 t2 db) = fst (completeCurrent t1 db)
        \<and> (\<forall>p \<in> set (storeAfter (startConsultation ties t1 t2 db)). status p \<noteq> IN_PROGRESS)
        \<and> published (startConsultation ties t1 t2 db) = Some []
        \<and> reply (startConsultation ties t1 t2 db) = ConsultationStarted [])
   \<and> (distinct (map ident db) \<and> getSortedQueue ties (fst (completeCurrent t1 db)) \<noteq> [] \<longrightarrow>
        hd (getSortedQueue ties (fst (completeCurrent t1 db))) \<in> set (fst (completeCurrent t1 db))
        \<and> storeAfter (startConsultation ties t1 t2 db)
            = map (\<lambda>p. if ident p = ident (hd (getSortedQueue ties (fst (completeCurrent t1 db))))
                        then p\<lparr>status := IN_PROGRESS, startedAt := Some t2\<rparr> else p)
                  (fst (completeCurrent t1 db)))
   \<and> published (startConsultation ties t1 t2 db)
       = Some (calculateWaitTimes (getSortedQueue ties (storeAfter (startConsultation ties t1 t2 db))))
   \<and> reply (startConsultation ties t1 t2 db)
       = ConsultationStarted
           (calculateWaitTimes (getSortedQueue ties (storeAfter (startConsultation ties t1 t2 db))))"
proof -
  let ?db1 = "fst (completeCurrent t1 db)"
  have head: "distinct (map ident db) \<and> getSortedQueue ties ?db1 \<noteq> [] \<longrightarrow>
        hd (getSortedQueue ties ?db1) \<in> set ?db1
        \<and> storeAfter (startConsultation ties t1 t2 db)
            = map (\<lambda>p. if ident p = ident (hd (getSortedQueue ties ?db1))
                        then p\<lparr>status := IN_PROGRESS, startedAt := Some t2\<rparr> else p) ?db1"
  proof
    assume a: "distinct (map ident db) \<and> getSortedQueue ties ?db1 \<noteq> []"
    then have d: "distinct (map ident ?db1)"
      by (simp add: completeCurrent_ident)
    show "hd (getSortedQueue ties ?db1) \<in> set ?db1
        \<and> storeAfter (startConsultation ties t1 t2 db)
            = map (\<lambda>p. if ident p = ident (hd (getSortedQueue ties ?db1))
                        then p\<lparr>status := IN_PROGRESS, startedAt := Some t2\<rparr> else p) ?db1"
      using hd_getSortedQueue_mem[OF assms, of ?db1] a startNext_head[OF d, of ties t2]
      by (simp add: storeAfter_startConsultation)
  qed
  show ?thesis
    using completeCurrent_none[of db t1] completeCurrent_some[of db t1]
      storeAfter_startConsultation[of ties t1 t2 db]
      startConsultation_empty[OF assms, of t1 db t2]
      head published_startConsultation[of ties t1 t2 db] reply_startConsultation[of ties t1 t2 db]
    by blast
qed

theorem startConsultation_advances_witness:
  "rearranges rev
   \<and> (\<exists>p \<in> set [examplePatient 1 BOOKED IN_PROGRESS 3, examplePatient 2 BOOKED WAITING 4].
       status p = IN_PROGRESS)
   \<and> distinct (map ident [examplePatient 1 BOOKED IN_PROGRESS 3, examplePatient 2 BOOKED WAITING 4])
   \<and> completeCurrent 10 [examplePatient 1 BOOKED IN_PROGRESS 3, examplePatient 2 BOOKED WAITING 4]
       = ([(examplePatient 1 BOOKED IN_PROGRESS 3)\<lparr>status := DONE, completedAt := Some 10\<rparr>,
           examplePatient 2 BOOKED WAITING 4],
          Some ((examplePatient 1 BOOKED IN_PROGRESS 3)\<lparr>status := DONE, completedAt := Some 10\<rparr>))
   \<and> storeAfter (startConsultation rev 10 11
         [examplePatient 1 BOOKED IN_PROGRESS 3, examplePatient 2 BOOKED WAITING 4])
       = [(examplePatient 1 BOOKED IN_PROGRESS 3)\<lparr>status := DONE, completedAt := Some 10\<rparr>,
          (examplePatient 2 BOOKED WAITING 4)\<lparr>status := IN_PROGRESS, startedAt := Some 11\<rparr>]
   \<and> completeCurrent 10 [examplePatient 1 BOOKED WAITING 3, examplePatient 2 BOOKED WAITING 4]
       = ([examplePatient 1 BOOKED WAITING 3, examplePatient 2 BOOKED WAITING 4], None)
   \<and> getSortedQueue rev (fst (completeCurrent 10 [])) = []
   \<and> published (startConsultation rev 10 11 []) = Some []
   \<and> reply (startConsultation rev 10 11 []) = ConsultationStarted []"
proof -
  let ?db = "[examplePatient 1 BOOKED IN_PROGRESS 3, examplePatient 2 BOOKED WAITING 4]"
  let ?db1 = "[(examplePatient 1 BOOKED IN_PROGRESS 3)\<lparr>status := DONE, completedAt := Some 10\<rparr>,
               examplePatient 2 BOOKED WAITING 4]"
  have r: "rearranges rev"
    by (simp add: rearranges_def)
  have h1: "\<exists>p \<in> set ?db. status p = IN_PROGRESS"
    by (simp add: examplePatient_def)
  have h2: "distinct (map ident ?db)"
    by (simp add: examplePatient_def)
  have c: "completeCurrent 10 ?db
             = (?db1, Some ((examplePatient 1 BOOKED IN_PROGRESS 3)\<lparr>status := DONE, completedAt := Some 10\<rparr>))"
    by (simp add: completeCurrent_def examplePatient_def)
  have q: "getSortedQueue rev ?db1 = [examplePatient 2 BOOKED WAITING 4]"
    by (simp add: queue_eval)
  have h3: "getSortedQueue rev (fst (completeCurrent 10 ?db)) \<noteq> []"
    unfolding c fst_conv q by simp
  have h4: "getSortedQueue rev (fst (completeCurrent 10 [])) = []"
    by (simp add: completeCurrent_def queue_eval)
  have "storeAfter (startConsultation rev 10 11 ?db)
          = map (\<lambda>p. if ident p = ident (hd (getSortedQueue rev (fst (completeCurrent 10 ?db))))
                        then p\<lparr>status := IN_PROGRESS, startedAt := Some 11\<rparr> else p)
                  (fst (completeCurrent 10 ?db))"
    using startConsultation_advances[OF r, of ?db 10 11] h2 h3 by blast
  then have s: "storeAfter (startConsultation rev 10 11 ?db)
          = [(examplePatient 1 BOOKED IN_PROGRESS 3)\<lparr>status := DONE, completedAt := Some 10\<rparr>,
          (examplePatient 2 BOOKED WAITING 4)\<lparr>status := IN_PROGRESS, startedAt := Some 11\<rparr>]"
    unfolding c fst_conv q by (simp add: examplePatient_def)
  have e: "published (startConsultation rev 10 11 []) = Some []
           \<and> reply (startConsultation rev 10 11 []) = ConsultationStarted []"
    using startConsultation_advances[OF r, of "[]" 10 11] h4 by blast
  have h5: "\<forall>p \<in> set [examplePatient 1 BOOKED WAITING 3, examplePatient 2 BOOKED WAITING 4].
              status p \<noteq> IN_PROGRESS"
    by (simp add: examplePatient_def)
  have b: "completeCurrent 10 [examplePatient 1 BOOKED WAITING 3, examplePatient 2 BOOKED WAITING 4]
       = ([examplePatient 1 BOOKED WAITING 3, examplePatient 2 BOOKED WAITING 4], None)"
    using startConsultation_advances
      [OF r, of "[examplePatient 1 BOOKED WAITING 3, examplePatient 2 BOOKED WAITING 4]" 10 11] h5
    by blast
  show ?thesis
    using r h1 h2 c s b h4 e by blast
qed

text \<open>
  Claim C4. From a store with at most one entry in progress, every sequence of
  \<^verbatim>\<open>START_CONSULTATION\<close> events leaves at most one entry in progress, whatever order
  the store gives to equal \<open>createdAt\<close>; and after one more event an entry in progress
  carries the identifier of the head of the queue composed from the store as it was
  after the previous entry's completion, and is that head's document, started, when
  the identifiers of the store are unique.
\<close>

theorem startConsultation_single_in_progress:
  assumes "inProgressCount db \<le> 1"
  shows "inProgressCount (advanceAll ties ts db) \<le> 1
    \<and> inProgressCount (storeAfter (startConsultation ties t1 t2 (advanceAll ties ts db))) \<le> 1
    \<and> (\<forall>p \<in> set (storeAfter (startConsultation ties t1 t2 (advanceAll ties ts db))).
          status p = IN_PROGRESS \<longrightarrow>
            getSortedQueue ties (fst (completeCurrent t1 (advanceAll ties ts db))) \<noteq> []
            \<and> ident p = ident (hd (getSortedQueue ties (fst (completeCurrent t1 (advanceAll ties ts db)))))
            \<and> (distinct (map ident db) \<and> rearranges ties \<longrightarrow>
                 p = (hd (getSortedQueue ties (fst (completeCurrent t1 (advanceAll ties ts db)))))
                       \<lparr>status := IN_PROGRESS, startedAt := Some t2\<rparr>))"
proof -
  let ?s = "advanceAll ties ts db"
  have c: "inProgressCount ?s \<le> 1"
    by (rule advanceAll_count[OF assms])
  have d: "distinct (map ident db) \<Longrightarrow> distinct (map ident ?s)"
    by (simp add: advanceAll_ident)
  show ?thesis
    using c startConsultation_count[OF c, of ties t1 t2]
      startConsultation_inProgress[OF c, of _ ties t1 t2] d
    by blast
qed

theorem startConsultation_single_in_progress_witness:
  "inProgressCount [examplePatient 1 BOOKED IN_PROGRESS 3, examplePatient 2 BOOKED WAITING 4,
                    examplePatient 3 WALK_IN WAITING 5] \<le> 1
   \<and> distinct (map ident [examplePatient 1 BOOKED IN_PROGRESS 3, examplePatient 2 BOOKED WAITING 4,
                    examplePatient 3 WALK_IN WAITING 5])
   \<and> rearranges rev
   \<and> (examplePatient 3 WALK_IN WAITING 5)\<lparr>status := IN_PROGRESS, startedAt := Some 13\<rparr>
       \<in> set (storeAfter (startConsultation rev 12 13 (advanceAll rev [(10, 11)]
            [examplePatient 1 BOOKED IN_PROGRESS 3, examplePatient 2 BOOKED WAITING 4,
             examplePatient 3 WALK_IN WAITING 5])))
   \<and> (examplePatient 3 WALK_IN WAITING 5)\<lparr>status := IN_PROGRESS, startedAt := Some 13\<rparr>
       = (hd (getSortedQueue rev (fst (completeCurrent 12 (advanceAll rev [(10, 11)]
            [examplePatient 1 BOOKED IN_PROGRESS 3, examplePatient 2 BOOKED WAITING 4,
             examplePatient 3 WALK_IN WAITING 5])))))\<lparr>status := IN_PROGRESS, startedAt := Some 13\<rparr>
   \<and> inProgressCount (storeAfter (startConsultation rev 12 13 (advanceAll rev [(10, 11)]
            [examplePatient 1 BOOKED IN_PROGRESS 3, examplePatient 2 BOOKED WAITING 4,
             examplePatient 3 WALK_IN WAITING 5]))) \<le> 1"
proof -
  let ?db = "[examplePatient 1 BOOKED IN_PROGRESS 3, examplePatient 2 BOOKED WAITING 4,
              examplePatient 3 WALK_IN WAITING 5]"
  let ?p = "(examplePatient 3 WALK_IN WAITING 5)\<lparr>status := IN_PROGRESS, startedAt := Some 13\<rparr>"
  have h: "inProgressCount ?db \<le> 1"
    by (simp add: inProgressCount_def examplePatient_def)
  have d: "distinct (map ident ?db)"
    by (simp add: examplePatient_def)
  have r: "rearranges rev"
    by (simp add: rearranges_def)
  have a: "advanceAll rev [(10, 11)] ?db
             = [(examplePatient 1 BOOKED IN_PROGRESS 3)\<lparr>status := DONE, completedAt := Some 10\<rparr>,
                (examplePatient 2 BOOKED WAITING 4)\<lparr>status := IN_PROGRESS, startedAt := Some 11\<rparr>,
                examplePatient 3 WALK_IN WAITING 5]"
    by (simp add: advance_eval queue_eval)
  have m: "?p \<in> set (storeAfter (startConsultation rev 12 13 (advanceAll rev [(10, 11)] ?db)))"
    unfolding a by (simp add: advance_eval queue_eval)
  have s: "status ?p = IN_PROGRESS"
    by simp
  show ?thesis
    using h d r m s startConsultation_single_in_progress[OF h, of rev "[(10, 11)]" 12 13]
    by blast
qed

section \<open>The order of the two sublists\<close>

lemma arrivalOrder_insort:
  assumes "sorted_wrt arrivalOrder xs" and "\<forall>y \<in> set xs. tokenNumber x \<le> tokenNumber y"
  shows "sorted_wrt arrivalOrder (insort_key createdAt x xs)"
  using assms
proof (induction xs)
  case Nil
  show ?case by simp
next
  case (Cons y ys)
  show ?case
  proof (cases "createdAt x \<le> createdAt y")
    case True
    have "arrivalOrder x z" if "z \<in> set (y # ys)" for z
    proof -
      have "createdAt y \<le> createdAt z"
        using that Cons.prems(1) by (auto simp: arrivalOrder_def)
      moreover have "tokenNumber x \<le> tokenNumber z"
        using that Cons.prems(2) by auto
      ultimately show ?thesis
        using True by (auto simp: arrivalOrder_def)
    qed
    with True Cons.prems(1) show ?thesis by simp
  next
    case False
    then have "arrivalOrder y x"
      by (simp add: arrivalOrder_def)
    moreover have "sorted_wrt arrivalOrder (insort_key createdAt x ys)"
      using Cons by simp
    ultimately show ?thesis
      using False Cons.prems(1) by (auto simp: set_insort_key)
  qed
qed

lemma arrivalOrder_sort_key:
  "sorted (map tokenNumber xs) \<Longrightarrow> sorted_wrt arrivalOrder (sort_key createdAt xs)"
proof (induction xs)
  case Nil
  show ?case by simp
next
  case (Cons x xs)
  then show ?case
    by (auto intro!: arrivalOrder_insort)
qed

lemma sorted_map_filter: "sorted (map f xs) \<Longrightarrow> sorted (map f (filter P xs))"
  by (induction xs) auto

lemma findActive_arrivalOrder:
  assumes "sorted (map tokenNumber (ties (filter isActive db)))"
  shows "sorted_wrt arrivalOrder (filter P (findActive ties db))"
  unfolding findActive_def
  by (intro sorted_wrt_filter arrivalOrder_sort_key assms)

lemma findActive_sorted: "sorted (map createdAt (filter P (findActive ties db)))"
  unfolding findActive_def by (intro sorted_map_filter) simp

lemma findActive_filter:
  "filter P (findActive ties db) = sort_key createdAt (filter P (ties (filter isActive db)))"
  by (simp add: findActive_def filter_sort)

lemma findActive_ties:
  "filter (\<lambda>p. createdAt p = k) (filter P (findActive ties db))
     = filter (\<lambda>p. createdAt p = k) (filter P (ties (filter isActive db)))"
  unfolding findActive_filter by (rule sort_key_stable)

lemma findActive_part:
  assumes "rearranges ties"
  shows "mset (filter P (findActive ties db)) = mset (filter (\<lambda>p. isActive p \<and> P p) db)"
proof -
  have "mset (filter P (findActive ties db)) = filter_mset P (mset (findActive ties db))"
    by (simp only: mset_filter)
  also have "\<dots> = filter_mset P (mset (filter isActive db))"
    by (simp only: mset_findActive[OF assms])
  also have "\<dots> = mset (filter P (filter isActive db))"
    by (simp only: mset_filter)
  also have "\<dots> = mset (filter (\<lambda>p. isActive p \<and> P p) db)"
    by (simp only: filter_filter)
  finally show ?thesis .
qed

text \<open>
  Two booked entries registered at the same clock reading, on a store that takes
  matching documents from the last to the first: the booked sublist has token 2 before
  token 1, which is not the order by \<open>createdAt\<close> and then \<open>tokenNumber\<close>. On a store
  that takes them from the first to the last it has token 1 before token 2: the order
  of equal \<open>createdAt\<close> is the store's.
\<close>

theorem getSortedQueue_tie_counterexample:
  "rearranges rev
   \<and> map tokenNumber (registerAll rev \<lparr>shouldSend = False, twilio = None\<rparr>
        [(1, 0, booking ''A'' ''BOOKED''), (2, 0, booking ''B'' ''BOOKED'')] []) = [1, 2]
   \<and> map createdAt (registerAll rev \<lparr>shouldSend = False, twilio = None\<rparr>
        [(1, 0, booking ''A'' ''BOOKED''), (2, 0, booking ''B'' ''BOOKED'')] []) = [0, 0]
   \<and> map tokenNumber (filter (\<lambda>p. ptype p = BOOKED)
        (findActive rev (registerAll rev \<lparr>shouldSend = False, twilio = None\<rparr>
           [(1, 0, booking ''A'' ''BOOKED''), (2, 0, booking ''B'' ''BOOKED'')] []))) = [2, 1]
   \<and> \<not> sorted_wrt arrivalOrder (filter (\<lambda>p. ptype p = BOOKED)
        (findActive rev (registerAll rev \<lparr>shouldSend = False, twilio = None\<rparr>
           [(1, 0, booking ''A'' ''BOOKED''), (2, 0, booking ''B'' ''BOOKED'')] [])))
   \<and> map tokenNumber (getSortedQueue rev
        (registerAll rev \<lparr>shouldSend = False, twilio = None\<rparr>
           [(1, 0, booking ''A'' ''BOOKED''), (2, 0, booking ''B'' ''BOOKED'')] [])) = [2, 1]
   \<and> map tokenNumber (getSortedQueue (\<lambda>xs. xs)
        (registerAll rev \<lparr>shouldSend = False, twilio = None\<rparr>
           [(1, 0, booking ''A'' ''BOOKED''), (2, 0, booking ''B'' ''BOOKED'')] [])) = [1, 2]"
proof -
  have r: "rearranges rev"
    by (simp add: rearranges_def)
  have db: "registerAll rev \<lparr>shouldSend = False, twilio = None\<rparr>
        [(1, 0, booking ''A'' ''BOOKED''), (2, 0, booking ''B'' ''BOOKED'')] []
     = [\<lparr>ident = 1, name = ''A'', phone = ''9000000000'', email = None,
          tokenNumber = 1, ptype = BOOKED, status = WAITING,
          department = ''General'', createdAt = 0, startedAt = None, completedAt = None\<rparr>,
        \<lparr>ident = 2, name = ''B'', phone = ''9000000000'', email = None,
          tokenNumber = 2, ptype = BOOKED, status = WAITING,
          department = ''General'', createdAt = 0, startedAt = None, completedAt = None\<rparr>]"
    by (simp add: register_eval)
  show ?thesis
    unfolding db using r by (simp add: queue_eval arrivalOrder_def)
qed

text \<open>
  Claim C6, amended. Before merging, the active entries are split into the booked and
  the walk-in sublist, each holding the store's active entries of that type in
  ascending \<open>createdAt\<close>. The composer compares no token: entries with the same
  \<open>createdAt\<close> stand in the order in which the store took them, so each sublist is
  ordered by \<open>createdAt\<close> and then \<open>tokenNumber\<close> when the store took the matching
  documents by ascending \<open>tokenNumber\<close>.
\<close>

theorem getSortedQueue_sublists_by_createdAt:
  assumes "rearranges ties"
  shows "getSortedQueue ties db =
     slotMerge (filter (\<lambda>p. ptype p = BOOKED) (findActive ties db))
               (filter (\<lambda>p. ptype p = WALK_IN) (findActive ties db))
   \<and> mset (filter (\<lambda>p. ptype p = BOOKED) (findActive ties db))
       = mset (filter (\<lambda>p. isActive p \<and> ptype p = BOOKED) db)
   \<and> mset (filter (\<lambda>p. ptype p = WALK_IN) (findActive ties db))
       = mset (filter (\<lambda>p. isActive p \<and> ptype p = WALK_IN) db)
   \<and> sorted (map createdAt (filter (\<lambda>p. ptype p = BOOKED) (findActive ties db)))
   \<and> sorted (map createdAt (filter (\<lambda>p. ptype p = WALK_IN) (findActive ties db)))
   \<and> filter (\<lambda>p. createdAt p = k) (filter (\<lambda>p. ptype p = BOOKED) (findActive ties db))
       = filter (\<lambda>p. createdAt p = k)
           (filter (\<lambda>p. ptype p = BOOKED) (ties (filter isActive db)))
   \<and> filter (\<lambda>p. createdAt p = k) (filter (\<lambda>p. ptype p = WALK_IN) (findActive ties db))
       = filter (\<lambda>p. createdAt p = k)
           (filter (\<lambda>p. ptype p = WALK_IN) (ties (filter isActive db)))
   \<and> (sorted (map tokenNumber (ties (filter isActive db))) \<longrightarrow>
        sorted_wrt arrivalOrder (filter (\<lambda>p. ptype p = BOOKED) (findActive ties db))
        \<and> sorted_wrt arrivalOrder (filter (\<lambda>p. ptype p = WALK_IN) (findActive ties db)))"
  using getSortedQueue_slotMerge[of ties db]
    findActive_part[OF assms, of "\<lambda>p. ptype p = BOOKED" db]
    findActive_part[OF assms, of "\<lambda>p. ptype p = WALK_IN" db]
    findActive_sorted[of "\<lambda>p. ptype p = BOOKED" ties db]
    findActive_sorted[of "\<lambda>p. ptype p = WALK_IN" ties db]
    findActive_ties[of k "\<lambda>p. ptype p = BOOKED" ties db]
    findActive_ties[of k "\<lambda>p. ptype p = WALK_IN" ties db]
    findActive_arrivalOrder[of ties db "\<lambda>p. ptype p = BOOKED"]
    findActive_arrivalOrder[of ties db "\<lambda>p. ptype p = WALK_IN"]
  by blast

theorem getSortedQueue_sublists_by_createdAt_witness:
  "rearranges rev
   \<and> sorted (map tokenNumber (rev (filter isActive
        [examplePatient 3 BOOKED WAITING 5, examplePatient 2 WALK_IN WAITING 5,
         examplePatient 1 BOOKED WAITING 5])))
   \<and> sorted_wrt arrivalOrder (filter (\<lambda>p. ptype p = BOOKED)
        (findActive rev [examplePatient 3 BOOKED WAITING 5, examplePatient 2 WALK_IN WAITING 5,
                         examplePatient 1 BOOKED WAITING 5]))
   \<and> sorted (map createdAt (filter (\<lambda>p. ptype p = BOOKED)
        (findActive rev [examplePatient 3 BOOKED WAITING 5, examplePatient 2 WALK_IN WAITING 5,
                         examplePatient 1 BOOKED WAITING 5])))"
proof -
  let ?db = "[examplePatient 3 BOOKED WAITING 5, examplePatient 2 WALK_IN WAITING 5,
              examplePatient 1 BOOKED WAITING 5]"
  have r: "rearranges rev"
    by (simp add: rearranges_def)
  have h: "sorted (map tokenNumber (rev (filter isActive ?db)))"
    by (simp add: examplePatient_def isActive_def)
  show ?thesis
    using r h getSortedQueue_sublists_by_createdAt[OF r, of ?db] by blast
qed

section \<open>A status edit of an unknown identifier\<close>

lemma findByIdAndDelete_none:
  "i \<notin> set (map ident db) \<Longrightarrow> findByIdAndDelete i db = (db, None)"
  by (induction db) auto

lemma findByIdAndUpdate_none:
  "i \<notin> set (map ident db) \<Longrightarrow> findByIdAndUpdate i f db = (db, None)"
  unfolding findByIdAndUpdate_def by (rule findOneAndUpdate_none) auto

text \<open>
  Claim C7. A status edit of an identifier that no document has leaves the store as it
  is, but replies with the \<^verbatim>\<open>null\<close> document (status 200) and broadcasts the queue;
  the deletion of the same identifier replies 404 and broadcasts nothing. This holds
  for every store, whatever order it gives to equal \<open>createdAt\<close>.
\<close>

theorem updateStatus_unknown_id:
  assumes "i \<notin> set (map ident db)"
  shows "updateStatus ties i st db
           = \<lparr>storeAfter = db, published = Some (publishQueue ties db), reply = Json None\<rparr>
         \<and> deletePatient ties i db = \<lparr>storeAfter = db, published = None, reply = NotFound\<rparr>"
  using assms
  by (simp add: updateStatus_def deletePatient_def findByIdAndUpdate_none
      findByIdAndDelete_none)

theorem updateStatus_unknown_id_witness:
  "7 \<notin> set (map ident [examplePatient 1 BOOKED WAITING 3])
   \<and> updateStatus rev 7 DONE [examplePatient 1 BOOKED WAITING 3]
     = \<lparr>storeAfter = [examplePatient 1 BOOKED WAITING 3],
        published = Some (calculateWaitTimes [examplePatient 1 BOOKED WAITING 3]),
        reply = Json None\<rparr>
   \<and> deletePatient rev 7 [examplePatient 1 BOOKED WAITING 3]
     = \<lparr>storeAfter = [examplePatient 1 BOOKED WAITING 3], published = None, reply = NotFound\<rparr>"
proof -
  have h: "7 \<notin> set (map ident [examplePatient 1 BOOKED WAITING 3])"
    by (simp add: examplePatient_def)
  have q: "publishQueue rev [examplePatient 1 BOOKED WAITING 3]
             = calculateWaitTimes [examplePatient 1 BOOKED WAITING 3]"
    by (simp add: publishQueue_def queue_eval)
  show ?thesis
    using h updateStatus_unknown_id[OF h, where ties = rev and st = DONE] unfolding q by blast
qed

section \<open>Token numbers\<close>

lemma addOne_exact: "- (2 ^ 53) \<le> x \<Longrightarrow> x < 2 ^ 53 \<Longrightarrow> addOne x = x + 1"
  by (simp add: addOne_def)

lemma addOne_ge: "x \<le> addOne x"
  by (simp add: addOne_def)

text \<open>Beyond \<open>2 ^ 53\<close> the sum is rounded: it skips an integer, or stays where it is.\<close>

lemma addOne_rounds:
  "addOne 9007199254740991 = 9007199254740992
   \<and> addOne 9007199254740992 = 9007199254740992
   \<and> addOne 9007199254740994 = 9007199254740996"
  by (simp add: addOne_def)

lemma findLastPatient_Nil: "findLastPatient [] = None"
  by (simp add: findLastPatient_def)

lemma findLastPatient_max:
  assumes "db \<noteq> []"
  shows "\<exists>p. findLastPatient db = Some p \<and> p \<in> set db
             \<and> tokenNumber p = Max (set (map tokenNumber db))"
proof -
  let ?s = "sort_key (\<lambda>p. - tokenNumber p) db"
  have ne: "?s \<noteq> []"
    using assms by (metis length_sort length_0_conv)
  then obtain p ps where s: "?s = p # ps"
    by (cases ?s) auto
  have mem: "p \<in> set db"
    using s by (metis list.set_intros(1) set_sort)
  have "sorted (map (\<lambda>p. - tokenNumber p) ?s)"
    by simp
  then have "\<forall>q \<in> set ps. - tokenNumber p \<le> - tokenNumber q"
    unfolding s by simp
  moreover have "set db = insert p (set ps)"
    using s by (metis list.simps(15) set_sort)
  ultimately have "\<forall>q \<in> set db. tokenNumber q \<le> tokenNumber p"
    by auto
  then have "Max (set (map tokenNumber db)) = tokenNumber p"
    using mem by (intro Max_eqI) auto
  with s mem show ?thesis
    by (simp add: findLastPatient_def)
qed

lemma nextTokenNumber_addOne:
  "nextTokenNumber db = addOne (if db = [] then 0 else Max (set (map tokenNumber db)))"
proof (cases "db = []")
  case True
  then show ?thesis by (simp add: nextTokenNumber_def findLastPatient_Nil)
next
  case False
  from findLastPatient_max[OF False] obtain p where
    "findLastPatient db = Some p" "tokenNumber p = Max (set (map tokenNumber db))"
    by blast
  with False show ?thesis by (simp add: nextTokenNumber_def)
qed

lemma Max_token_safe:
  assumes "safeTokens db" and "db \<noteq> []"
  shows "- (2 ^ 53) \<le> Max (set (map tokenNumber db)) \<and> Max (set (map tokenNumber db)) < 2 ^ 53"
proof -
  have "Max (set (map tokenNumber db)) \<in> set (map tokenNumber db)"
    using assms(2) by (intro Max_in) auto
  then show ?thesis
    using assms(1) by (auto simp: safeTokens_def)
qed

lemma nextTokenNumber_max:
  assumes "safeTokens db"
  shows "nextTokenNumber db = (if db = [] then 1 else Max (set (map tokenNumber db)) + 1)"
proof (cases "db = []")
  case True
  then show ?thesis by (simp add: nextTokenNumber_addOne addOne_def)
next
  case False
  then show ?thesis
    using Max_token_safe[OF assms False] by (simp add: nextTokenNumber_addOne addOne_exact)
qed

lemma nextTokenNumber_ge: "p \<in> set db \<Longrightarrow> tokenNumber p \<le> nextTokenNumber db"
proof -
  assume p: "p \<in> set db"
  then have "tokenNumber p \<le> Max (set (map tokenNumber db))"
    by (intro Max_ge) auto
  also have "\<dots> \<le> addOne (Max (set (map tokenNumber db)))"
    by (rule addOne_ge)
  finally show ?thesis
    using p by (auto simp: nextTokenNumber_addOne)
qed

lemma nextTokenNumber_greater:
  assumes "nextTokenNumber db \<notin> set (map tokenNumber db)" and "p \<in> set db"
  shows "tokenNumber p < nextTokenNumber db"
proof -
  have "tokenNumber p \<in> set (map tokenNumber db)"
    using assms(2) by simp
  then have "tokenNumber p \<noteq> nextTokenNumber db"
    using assms(1) by metis
  then show ?thesis
    using nextTokenNumber_ge[OF assms(2)] by simp
qed

lemma nextTokenNumber_safe_fresh:
  assumes "safeTokens db"
  shows "nextTokenNumber db \<notin> set (map tokenNumber db)"
proof
  assume "nextTokenNumber db \<in> set (map tokenNumber db)"
  then obtain p where p: "p \<in> set db" "tokenNumber p = nextTokenNumber db"
    by auto
  then have ne: "db \<noteq> []"
    by auto
  have "tokenNumber p \<le> Max (set (map tokenNumber db))"
    using p(1) by (intro Max_ge) auto
  then show False
    using p(2) ne by (simp add: nextTokenNumber_max[OF assms])
qed

lemma registerPatient_cases:
  "(\<exists>n ph ty. requiredString (reqName req) = Some n \<and> requiredString (reqPhone req) = Some ph
       \<and> parseType (reqType req) = Some ty \<and> oid \<notin> set (map ident db)
       \<and> nextTokenNumber db \<notin> set (map tokenNumber db)
       \<and> registerPatient ties env oid now req db
           = \<lparr>storeAfter = db @ [\<lparr>ident = oid, name = n, phone = ph, email = None,
                                    tokenNumber = nextTokenNumber db, ptype = ty, status = WAITING,
                                    department = ''General'', createdAt = now,
                                    startedAt = None, completedAt = None\<rparr>],
              published = Some (publishQueue ties
                                  (db @ [\<lparr>ident = oid, name = n, phone = ph, email = None,
                                    tokenNumber = nextTokenNumber db, ptype = ty, status = WAITING,
                                    department = ''General'', createdAt = now,
                                    startedAt = None, completedAt = None\<rparr>])),
              reply = Created \<lparr>ident = oid, name = n, phone = ph, email = None,
                                    tokenNumber = nextTokenNumber db, ptype = ty, status = WAITING,
                                    department = ''General'', createdAt = now,
                                    startedAt = None, completedAt = None\<rparr>
                        (nextTokenNumber db)
                        (sendWhatsAppMessage env ph (nextTokenNumber db) n)\<rparr>)
   \<or> registerPatient ties env oid now req db
        = \<lparr>storeAfter = db, published = None, reply = BadRequest\<rparr>"
  by (auto simp: registerPatient_def Let_def split: option.splits)

text \<open>
  A store whose greatest token is \<open>2 ^ 53\<close>: the sum is rounded back to \<open>2 ^ 53\<close>, the
  unique index refuses the document and the registration fails.
\<close>

lemma registerPatient_rounded_token:
  "registerPatient ties env 2 now (booking ''A'' ''BOOKED'')
     [(examplePatient 1 BOOKED WAITING 0)\<lparr>tokenNumber := 9007199254740992\<rparr>]
   = \<lparr>storeAfter = [(examplePatient 1 BOOKED WAITING 0)\<lparr>tokenNumber := 9007199254740992\<rparr>],
      published = None, reply = BadRequest\<rparr>"
  by (simp add: register_eval examplePatient_def)

lemma registerPatient_store:
  "storeAfter (registerPatient ties env oid now req db) = db
   \<or> (\<exists>p. storeAfter (registerPatient ties env oid now req db) = db @ [p]
          \<and> tokenNumber p = nextTokenNumber db
          \<and> nextTokenNumber db \<notin> set (map tokenNumber db))"
  using registerPatient_cases[of req oid db ties env now] by auto

lemma registerPatient_created:
  assumes "reply (registerPatient ties env oid now req db) = Created p tok sent"
  shows "storeAfter (registerPatient ties env oid now req db) = db @ [p]
         \<and> tokenNumber p = nextTokenNumber db \<and> tok = nextTokenNumber db
         \<and> (\<forall>q \<in> set db. tokenNumber q < tokenNumber p)"
proof -
  have "storeAfter (registerPatient ties env oid now req db) = db @ [p]
         \<and> tokenNumber p = nextTokenNumber db \<and> tok = nextTokenNumber db
         \<and> nextTokenNumber db \<notin> set (map tokenNumber db)"
    using registerPatient_cases[of req oid db ties env now] assms by auto
  then show ?thesis
    using nextTokenNumber_greater[of db] by simp
qed

lemma registerPatient_increasing:
  assumes "sorted_wrt (<) (map tokenNumber db)"
  shows "sorted_wrt (<) (map tokenNumber (storeAfter (registerPatient ties env oid now req db)))"
proof -
  consider "storeAfter (registerPatient ties env oid now req db) = db"
    | p where "storeAfter (registerPatient ties env oid now req db) = db @ [p]"
      "tokenNumber p = nextTokenNumber db"
      "nextTokenNumber db \<notin> set (map tokenNumber db)"
    using registerPatient_store[of ties env oid now req db] by blast
  then show ?thesis
  proof cases
    case 1
    then show ?thesis using assms by simp
  next
    case 2
    have "\<forall>q \<in> set db. tokenNumber q < tokenNumber p"
      using nextTokenNumber_greater[OF 2(3)] 2(2) by simp
    then show ?thesis
      using assms 2(1) by (simp add: sorted_wrt_append)
  qed
qed

lemma findOneAndUpdate_tokens:
  "(\<And>p. tokenNumber (f p) = tokenNumber p) \<Longrightarrow>
   map tokenNumber (fst (findOneAndUpdate c f db)) = map tokenNumber db"
  by (induction db) (auto split: prod.splits)

lemma startConsultation_tokens:
  "map tokenNumber (storeAfter (startConsultation ties t1 t2 db)) = map tokenNumber db"
  by (auto simp: advance_eval findOneAndUpdate_tokens split: list.splits)

lemma updateStatus_tokens:
  "map tokenNumber (storeAfter (updateStatus ties i st db)) = map tokenNumber db"
  using findOneAndUpdate_tokens[of "\<lambda>p. p\<lparr>status := st\<rparr>" "\<lambda>p. ident p = i" db]
  by (auto simp: updateStatus_def findByIdAndUpdate_def split: prod.splits)

lemma findByIdAndDelete_set: "set (fst (findByIdAndDelete i db)) \<subseteq> set db"
  by (induction db) (auto split: prod.splits)

lemma deletePatient_set: "set (storeAfter (deletePatient ties i db)) \<subseteq> set db"
  using findByIdAndDelete_set[of i db]
  by (auto simp: deletePatient_def split: prod.splits option.splits)

text \<open>
  Two registrations get the tokens 1 and 2; after the entry with token 2 is deleted,
  the next registration gets token 2 again.
\<close>

theorem registerPatient_token_reuse_counterexample:
  "map ident (registerAll rev \<lparr>shouldSend = False, twilio = None\<rparr>
        [(1, 0, booking ''A'' ''BOOKED''), (2, 0, booking ''B'' ''BOOKED'')] []) = [1, 2]
   \<and> map tokenNumber (registerAll rev \<lparr>shouldSend = False, twilio = None\<rparr>
        [(1, 0, booking ''A'' ''BOOKED''), (2, 0, booking ''B'' ''BOOKED'')] []) = [1, 2]
   \<and> map ident (storeAfter (registerPatient rev \<lparr>shouldSend = False, twilio = None\<rparr> 3 0
        (booking ''C'' ''BOOKED'')
        (storeAfter (deletePatient rev 2 (registerAll rev \<lparr>shouldSend = False, twilio = None\<rparr>
           [(1, 0, booking ''A'' ''BOOKED''), (2, 0, booking ''B'' ''BOOKED'')] []))))) = [1, 3]
   \<and> map tokenNumber (storeAfter (registerPatient rev \<lparr>shouldSend = False, twilio = None\<rparr> 3 0
        (booking ''C'' ''BOOKED'')
        (storeAfter (deletePatient rev 2 (registerAll rev \<lparr>shouldSend = False, twilio = None\<rparr>
           [(1, 0, booking ''A'' ''BOOKED''), (2, 0, booking ''B'' ''BOOKED'')] []))))) = [1, 2]"
  by (simp add: register_eval deletePatient_def)

text \<open>
  Claim C8, amended. A registration computes its token as the greatest token of the
  store plus one (from 0 on an empty store), in the arithmetic of doubles: that is
  exactly the greatest token plus one, greater than every token of the store, while
  the tokens of the store lie from \<open>- 2 ^ 53\<close> to below \<open>2 ^ 53\<close>. The entry of a
  registration that succeeds has a token greater than every token the store holds, so
  tokens that increase along the store still do after any registration. No
  \<^verbatim>\<open>START_CONSULTATION\<close> and no status edit changes a token, and a deletion leaves the
  remaining documents as they were.
\<close>

theorem registerPatient_token_number:
  "nextTokenNumber db = addOne (if db = [] then 0 else Max (set (map tokenNumber db)))
   \<and> (safeTokens db \<longrightarrow>
        nextTokenNumber db = (if db = [] then 1 else Max (set (map tokenNumber db)) + 1)
        \<and> (\<forall>p \<in> set db. tokenNumber p < nextTokenNumber db))
   \<and> (reply (registerPatient ties env oid now req db) = Created p tok sent \<longrightarrow>
        storeAfter (registerPatient ties env oid now req db) = db @ [p]
        \<and> tokenNumber p = nextTokenNumber db \<and> tok = nextTokenNumber db
        \<and> (\<forall>q \<in> set db. tokenNumber q < tokenNumber p))
   \<and> (sorted_wrt (<) (map tokenNumber db) \<longrightarrow>
        sorted_wrt (<) (map tokenNumber (storeAfter (registerPatient ties env oid now req db))))
   \<and> map tokenNumber (storeAfter (startConsultation ties t1 t2 db)) = map tokenNumber db
   \<and> map tokenNumber (storeAfter (updateStatus ties i st db)) = map tokenNumber db
   \<and> set (storeAfter (deletePatient ties i db)) \<subseteq> set db"
proof -
  have safe: "safeTokens db \<longrightarrow>
        nextTokenNumber db = (if db = [] then 1 else Max (set (map tokenNumber db)) + 1)
        \<and> (\<forall>p \<in> set db. tokenNumber p < nextTokenNumber db)"
    using nextTokenNumber_max[of db] nextTokenNumber_safe_fresh[of db]
      nextTokenNumber_greater[of db]
    by blast
  show ?thesis
    using nextTokenNumber_addOne[of db] safe
      registerPatient_created[of ties env oid now req db p tok sent]
      registerPatient_increasing[of db ties env oid now req]
      startConsultation_tokens[of ties t1 t2 db] updateStatus_tokens[of ties i st db]
      deletePatient_set[of ties i db]
    by blast
qed

theorem registerPatient_token_number_witness:
  "safeTokens [examplePatient 1 BOOKED WAITING 3, examplePatient 2 BOOKED WAITING 4]
   \<and> sorted_wrt (<) (map tokenNumber [examplePatient 1 BOOKED WAITING 3, examplePatient 2 BOOKED WAITING 4])
   \<and> examplePatient 2 BOOKED WAITING 4
       \<in> set [examplePatient 1 BOOKED WAITING 3, examplePatient 2 BOOKED WAITING 4]
   \<and> tokenNumber (examplePatient 2 BOOKED WAITING 4)
       < nextTokenNumber [examplePatient 1 BOOKED WAITING 3, examplePatient 2 BOOKED WAITING 4]
   \<and> sorted_wrt (<) (map tokenNumber (storeAfter
        (registerPatient rev \<lparr>shouldSend = False, twilio = None\<rparr> 3 9 (booking ''C'' ''BOOKED'')
           [examplePatient 1 BOOKED WAITING 3, examplePatient 2 BOOKED WAITING 4])))
   \<and> reply (registerPatient rev \<lparr>shouldSend = False, twilio = None\<rparr> 3 9 (booking ''C'' ''BOOKED'')
           [examplePatient 1 BOOKED WAITING 3, examplePatient 2 BOOKED WAITING 4])
       = Created \<lparr>ident = 3, name = ''C'', phone = ''9000000000'', email = None,
                  tokenNumber = 3, ptype = BOOKED, status = WAITING,
                  department = ''General'', createdAt = 9,
                  startedAt = None, completedAt = None\<rparr> 3 False
   \<and> 3 = nextTokenNumber [examplePatient 1 BOOKED WAITING 3, examplePatient 2 BOOKED WAITING 4]"
proof -
  let ?db = "[examplePatient 1 BOOKED WAITING 3, examplePatient 2 BOOKED WAITING 4]"
  let ?env = "\<lparr>shouldSend = False, twilio = None\<rparr>"
  let ?p = "\<lparr>ident = 3, name = ''C'', phone = ''9000000000'', email = None,
                  tokenNumber = 3, ptype = BOOKED, status = WAITING,
                  department = ''General'', createdAt = 9,
                  startedAt = None, completedAt = None\<rparr>"
  have h0: "safeTokens ?db"
    by (simp add: safeTokens_def examplePatient_def)
  have h1: "sorted_wrt (<) (map tokenNumber ?db)"
    by (simp add: examplePatient_def)
  have h2: "examplePatient 2 BOOKED WAITING 4 \<in> set ?db"
    by simp
  have h3: "reply (registerPatient rev ?env 3 9 (booking ''C'' ''BOOKED'') ?db) = Created ?p 3 False"
    by (simp add: register_eval examplePatient_def sendWhatsAppMessage_def)
  show ?thesis
    using h0 h1 h2 h3
      registerPatient_token_number[of ?db rev ?env 3 9 "booking ''C'' ''BOOKED''" ?p 3 False]
    by blast
qed

section \<open>Registration and the notification\<close>

lemma sendWhatsAppMessage_threw:
  "twilio env = Some client \<Longrightarrow> client ph tok n = Threw \<Longrightarrow>
   sendWhatsAppMessage env ph tok n = False"
  by (simp add: sendWhatsAppMessage_def)

lemma registerPatient_valid:
  assumes "requiredString (reqName req) = Some n" and "requiredString (reqPhone req) = Some ph"
    and "parseType (reqType req) = Some ty" and "oid \<notin> set (map ident db)"
  shows "registerPatient ties env oid now req db
           = (if nextTokenNumber db \<in> set (map tokenNumber db)
              then \<lparr>storeAfter = db, published = None, reply = BadRequest\<rparr>
              else
              \<lparr>storeAfter = db @ [\<lparr>ident = oid, name = n, phone = ph, email = None,
                                    tokenNumber = nextTokenNumber db, ptype = ty, status = WAITING,
                                    department = ''General'', createdAt = now,
                                    startedAt = None, completedAt = None\<rparr>],
              published = Some (publishQueue ties
                                  (db @ [\<lparr>ident = oid, name = n, phone = ph, email = None,
                                    tokenNumber = nextTokenNumber db, ptype = ty, status = WAITING,
                                    department = ''General'', createdAt = now,
                                    startedAt = None, completedAt = None\<rparr>])),
              reply = Created \<lparr>ident = oid, name = n, phone = ph, email = None,
                                    tokenNumber = nextTokenNumber db, ptype = ty, status = WAITING,
                                    department = ''General'', createdAt = now,
                                    startedAt = None, completedAt = None\<rparr>
                        (nextTokenNumber db)
                        (sendWhatsAppMessage env ph (nextTokenNumber db) n)\<rparr>)"
  using assms by (simp add: registerPatient_def Let_def)

lemma registerPatient_env_store:
  "storeAfter (registerPatient ties env oid now req db)
     = storeAfter (registerPatient ties env' oid now req db)"
  by (simp add: registerPatient_def Let_def split: option.splits)

lemma registerPatient_env_published:
  "published (registerPatient ties env oid now req db)
     = published (registerPatient ties env' oid now req db)"
  by (simp add: registerPatient_def Let_def split: option.splits)

lemma registerPatient_env_failure:
  "reply (registerPatient ties env oid now req db) = BadRequest
     \<longleftrightarrow> reply (registerPatient ties env' oid now req db) = BadRequest"
  by (simp add: registerPatient_def Let_def split: option.splits)

text \<open>
  Claim C9. A registration whose request is valid stores the new entry, publishes the
  queue of the store that holds it and replies \<open>Created\<close>, whatever the notifier does:
  the notifier's outcome is only the boolean of the reply, which is \<open>False\<close> when the
  Twilio call throws. The one failure left to a valid request is the unique index on
  the token, which no store with tokens from \<open>- 2 ^ 53\<close> to below \<open>2 ^ 53\<close> meets and
  which does not depend on the notifier. The store and the published queue after a
  registration, and whether it fails, are the same for any two notifiers.
\<close>

theorem registerPatient_notification_not_fatal:
  assumes "requiredString (reqName req) = Some n" and "requiredString (reqPhone req) = Some ph"
    and "parseType (reqType req) = Some ty" and "oid \<notin> set (map ident db)"
  shows "registerPatient ties env oid now req db
           = (if nextTokenNumber db \<in> set (map tokenNumber db)
              then \<lparr>storeAfter = db, published = None, reply = BadRequest\<rparr>
              else
              \<lparr>storeAfter = db @ [\<lparr>ident = oid, name = n, phone = ph, email = None,
                                    tokenNumber = nextTokenNumber db, ptype = ty, status = WAITING,
                                    department = ''General'', createdAt = now,
                                    startedAt = None, completedAt = None\<rparr>],
              published = Some (publishQueue ties
                                  (db @ [\<lparr>ident = oid, name = n, phone = ph, email = None,
                                    tokenNumber = nextTokenNumber db, ptype = ty, status = WAITING,
                                    department = ''General'', createdAt = now,
                                    startedAt = None, completedAt = None\<rparr>])),
              reply = Created \<lparr>ident = oid, name = n, phone = ph, email = None,
                                    tokenNumber = nextTokenNumber db, ptype = ty, status = WAITING,
                                    department = ''General'', createdAt = now,
                                    startedAt = None, completedAt = None\<rparr>
                        (nextTokenNumber db)
                        (sendWhatsAppMessage env ph (nextTokenNumber db) n)\<rparr>)
         \<and> (safeTokens db \<longrightarrow> nextTokenNumber db \<notin> set (map tokenNumber db))
         \<and> (twilio env = Some client \<and> client ph (nextTokenNumber db) n = Threw \<longrightarrow>
              sendWhatsAppMessage env ph (nextTokenNumber db) n = False)
         \<and> storeAfter (registerPatient ties env oid now req db)
             = storeAfter (registerPatient ties env' oid now req db)
         \<and> published (registerPatient ties env oid now req db)
             = published (registerPatient ties env' oid now req db)
         \<and> (reply (registerPatient ties env oid now req db) = BadRequest
              \<longleftrightarrow> reply (registerPatient ties env' oid now req db) = BadRequest)"
  using registerPatient_valid[OF assms, of ties env now]
    nextTokenNumber_safe_fresh[of db]
    sendWhatsAppMessage_threw[of env client ph "nextTokenNumber db" n]
    registerPatient_env_store[of ties env oid now req db env']
    registerPatient_env_published[of ties env oid now req db env']
    registerPatient_env_failure[of ties env oid now req db env']
  by blast

theorem registerPatient_notification_not_fatal_witness:
  "requiredString (reqName (booking ''A'' ''BOOKED'')) = Some ''A''
   \<and> requiredString (reqPhone (booking ''A'' ''BOOKED'')) = Some ''9000000000''
   \<and> parseType (reqType (booking ''A'' ''BOOKED'')) = Some BOOKED
   \<and> 1 \<notin> set (map ident [])
   \<and> safeTokens []
   \<and> twilio \<lparr>shouldSend = True, twilio = Some (\<lambda>ph tok n. Threw)\<rparr> = Some (\<lambda>ph tok n. Threw)
   \<and> registerPatient rev \<lparr>shouldSend = True, twilio = Some (\<lambda>ph tok n. Threw)\<rparr> 1 5
        (booking ''A'' ''BOOKED'') []
       = \<lparr>storeAfter = [\<lparr>ident = 1, name = ''A'', phone = ''9000000000'', email = None,
                           tokenNumber = 1, ptype = BOOKED, status = WAITING,
                           department = ''General'', createdAt = 5,
                           startedAt = None, completedAt = None\<rparr>],
          published = Some (publishQueue rev [\<lparr>ident = 1, name = ''A'', phone = ''9000000000'',
                           email = None, tokenNumber = 1, ptype = BOOKED, status = WAITING,
                           department = ''General'', createdAt = 5,
                           startedAt = None, completedAt = None\<rparr>]),
          reply = Created \<lparr>ident = 1, name = ''A'', phone = ''9000000000'', email = None,
                           tokenNumber = 1, ptype = BOOKED, status = WAITING,
                           department = ''General'', createdAt = 5,
                           startedAt = None, completedAt = None\<rparr> 1 False\<rparr>"
proof -
  let ?env = "\<lparr>shouldSend = True, twilio = Some (\<lambda>ph tok n. Threw)\<rparr>"
  let ?req = "booking ''A'' ''BOOKED''"
  have a: "requiredString (reqName ?req) = Some ''A''"
    "requiredString (reqPhone ?req) = Some ''9000000000''"
    "parseType (reqType ?req) = Some BOOKED"
    "1 \<notin> set (map ident [])"
    by (simp_all add: booking_def requiredString_def parseType_def)
  have sf: "safeTokens []"
    by (simp add: safeTokens_def)
  have t: "twilio ?env = Some (\<lambda>ph tok n. Threw)"
    by simp
  have n: "nextTokenNumber [] = 1"
    by (simp add: nextTokenNumber_def findLastPatient_def addOne_def)
  have c: "(\<lambda>ph tok n. Threw) ''9000000000'' (nextTokenNumber []) ''A'' = Threw"
    by simp
  note r = registerPatient_notification_not_fatal
    [OF a, of rev ?env 5 "\<lambda>ph tok n. Threw" ?env]
  have f: "sendWhatsAppMessage ?env ''9000000000'' (nextTokenNumber []) ''A'' = False"
    using r t c by blast
  show ?thesis
    using a sf t r f n by simp
qed

end
